theory Spec2Isabelle
  imports Complex_Main "HOL-Library.Word"
begin

unbundle bit_operations_syntax

section \<open>Colours\<close>

text \<open>
  The package \<^verbatim>\<open>deepx\<close> turns a mask image into a random-dot stereogram. This theory
  embeds its two library files: the colour helpers (\<^verbatim>\<open>Color\<close>, \<^verbatim>\<open>Hex\<close>,
  \<^verbatim>\<open>ColorFromHex\<close>, \<^verbatim>\<open>ColorRGBA\<close>) and the synthesis
  (\<^verbatim>\<open>NewStereogramFromMask\<close>, \<^verbatim>\<open>drawAutoStereogram\<close>,
  \<^verbatim>\<open>newDepthBufferFromImage\<close>).

  Every run-time panic and every error return of the Go code is a value of \<open>error\<close>.
\<close>

datatype error =
    ErrSyntax               \<comment> \<open>\<^verbatim>\<open>strconv.ErrSyntax\<close>\<close>
  | ErrRange                \<comment> \<open>\<^verbatim>\<open>strconv.ErrRange\<close>\<close>
  | DecodeFailed            \<comment> \<open>\<^verbatim>\<open>could not decode mask image data\<close>\<close>
  | IndexOutOfRange int     \<comment> \<open>run-time panic: index out of range, with the index\<close>

text \<open>\<^verbatim>\<open>type Color color.RGBA\<close>: four \<^verbatim>\<open>uint8\<close> channels.\<close>

record Color =
  R :: "8 word"
  G :: "8 word"
  B :: "8 word"
  A :: "8 word"

text \<open>
  \<^verbatim>\<open>fmt.Sprintf("#%.2X%.2X%.2X%.2X", c.R, c.G, c.B, c.A)\<close>: the verb \<^verbatim>\<open>%.2X\<close> prints a
  \<^verbatim>\<open>uint8\<close> as upper-case hexadecimal with at least two digits, hence exactly two.
\<close>

definition hexDigit :: "nat \<Rightarrow> char" where
  "hexDigit n = ''0123456789ABCDEF'' ! n"

definition fmt_02X :: "8 word \<Rightarrow> string" where
  "fmt_02X b = [hexDigit (unat b div 16), hexDigit (unat b mod 16)]"

definition Hex :: "Color \<Rightarrow> string" where
  "Hex c = CHR ''#'' # fmt_02X (R c) @ fmt_02X (G c) @ fmt_02X (B c) @ fmt_02X (A c)"

definition Equal :: "Color \<Rightarrow> Color \<Rightarrow> bool" where
  "Equal c other \<longleftrightarrow> A c = A other \<and> B c = B other \<and> R c = R other \<and> G c = G other"

definition TrimPrefix :: "string \<Rightarrow> string \<Rightarrow> string" where
  "TrimPrefix s p = (if take (length p) s = p then drop (length p) s else s)"

text \<open>
  \<^verbatim>\<open>strconv.ParseUint(s, base, bitSize)\<close> of the Go library, for an explicit base between 2
  and 36 (the only call uses base 16 and 32 bits). Characters are bytes; \<open>lower\<close> is the
  library's \<^verbatim>\<open>c | ('x' - 'X')\<close>. The accumulator is an unbounded \<open>nat\<close>: the library's
  guard \<^verbatim>\<open>n >= cutoff\<close> keeps its \<^verbatim>\<open>uint64\<close> from wrapping, so both agree.
\<close>

definition lower :: "nat \<Rightarrow> nat" where
  "lower c = c OR 32"

definition digitVal :: "char \<Rightarrow> nat option" where
  "digitVal c =
     (let b = (of_char c :: nat) in
      if 48 \<le> b \<and> b \<le> 57 then Some (b - 48)
      else if 97 \<le> lower b \<and> lower b \<le> 122 then Some (lower b - 97 + 10)
      else None)"

fun parse_digits :: "nat \<Rightarrow> nat \<Rightarrow> nat \<Rightarrow> string \<Rightarrow> error + nat" where
  "parse_digits base bitSize n [] = Inr n"
| "parse_digits base bitSize n (c # cs) =
     (case digitVal c of
        None \<Rightarrow> Inl ErrSyntax
      | Some d \<Rightarrow>
          if d \<ge> base then Inl ErrSyntax
          else if n \<ge> (2 ^ 64 - 1) div base + 1 then Inl ErrRange
          else if n * base + d > 2 ^ bitSize - 1 then Inl ErrRange
          else parse_digits base bitSize (n * base + d) cs)"

definition ParseUint :: "string \<Rightarrow> nat \<Rightarrow> nat \<Rightarrow> error + 64 word" where
  "ParseUint s base bitSize =
     (if s = [] then Inl ErrSyntax
      else case parse_digits base bitSize 0 s of
             Inl er \<Rightarrow> Inl er
           | Inr n \<Rightarrow> Inr (of_nat n))"

definition ColorFromHex :: "string \<Rightarrow> error + Color" where
  "ColorFromHex hex0 =
     (let hex1 = TrimPrefix hex0 ''#'';
          hex = (if length hex1 < 8
                 then hex1 @ replicate (8 - length hex1) CHR ''F''
                 else hex1)
      in case ParseUint hex 16 32 of
           Inl er \<Rightarrow> Inl er
         | Inr values \<Rightarrow>
             Inr \<lparr> R = ucast (drop_bit 24 values),
                   G = ucast (drop_bit 16 values AND 0xFF),
                   B = ucast (drop_bit 8 values AND 0xFF),
                   A = ucast (values AND 0xFF) \<rparr>)"

text \<open>
  A value of the interface \<^verbatim>\<open>color.Color\<close> is modelled by what its only method
  \<^verbatim>\<open>RGBA()\<close> returns: four \<^verbatim>\<open>uint32\<close> channels (alpha-premultiplied, each at most
  \<^verbatim>\<open>0xFFFF\<close> by the interface's contract).

  \<^verbatim>\<open>uint8(255 * float64(r) / math.MaxUint16)\<close>: for \<open>r \<le> 0xFFFF\<close> the product is exact
  in \<^verbatim>\<open>float64\<close>, the quotient \<open>r / 257\<close> is an integer or at least \<open>1 / 257\<close> away from
  one, so truncating the rounded quotient gives the integer quotient written here. Above
  \<^verbatim>\<open>0xFFFF\<close> Go leaves the conversion to \<^verbatim>\<open>uint8\<close> to the implementation.
\<close>

type_synonym color_Color = "32 word \<times> 32 word \<times> 32 word \<times> 32 word"

definition channel8 :: "32 word \<Rightarrow> 8 word" where
  "channel8 v = of_nat ((255 * unat v) div 65535)"

definition ColorRGBA :: "color_Color \<Rightarrow> Color" where
  "ColorRGBA c =
     (case c of (r, g, b, a) \<Rightarrow>
        \<lparr> R = channel8 r, G = channel8 g, B = channel8 b, A = channel8 a \<rparr>)"

text \<open>
  The pixels of an 8-bit RGBA image are values of the library's \<^verbatim>\<open>color.RGBA\<close>, whose
  method \<^verbatim>\<open>RGBA()\<close> widens each channel: \<^verbatim>\<open>r = uint32(c.R); r |= r << 8\<close>.
\<close>

definition widen :: "8 word \<Rightarrow> 32 word" where
  "widen v = ucast v OR push_bit 8 (ucast v)"

definition color_RGBA :: "Color \<Rightarrow> color_Color" where
  "color_RGBA c = (widen (R c), widen (G c), widen (B c), widen (A c))"

definition isTransparentMaskPixel :: "color_Color \<Rightarrow> Color option \<Rightarrow> bool" where
  "isTransparentMaskPixel pxColor maskTransparentColor =
     (case maskTransparentColor of
        None \<Rightarrow> (case pxColor of (r, g, b, a) \<Rightarrow> a = 0)
      | Some tc \<Rightarrow> Equal (ColorRGBA pxColor) tc)"

section \<open>The depth buffer\<close>

text \<open>
  A finite \<^verbatim>\<open>float64\<close> is a rational number: the values that the configuration holds
  and the depths that \<^verbatim>\<open>newDepthBufferFromImage\<close> stores (\<open>0\<close> and \<open>1\<close>) are given as
  rationals.

  An \<^verbatim>\<open>image.Image\<close> is modelled by what the code asks of it: the size of its bounds
  (\<^verbatim>\<open>Bounds().Dx()\<close>, \<^verbatim>\<open>Bounds().Dy()\<close>, not negative for a decoded image) and \<^verbatim>\<open>At(x, y)\<close>.
\<close>

type_synonym float64 = rat

record Image =
  Dx :: nat
  Dy :: nat
  At :: "nat \<Rightarrow> nat \<Rightarrow> color_Color"

definition newDepthBufferFromImage :: "Image \<Rightarrow> Color option \<Rightarrow> float64 list list" where
  "newDepthBufferFromImage img transparentColor =
     map (\<lambda>x. map (\<lambda>y. if isTransparentMaskPixel (At img x y) transparentColor then 0 else 1)
                 [0..<Dy img])
         [0..<Dx img]"

definition mask_2x1 :: Image where
  "mask_2x1 = \<lparr> Dx = 2, Dy = 1,
                At = (\<lambda>x y. if x = 0 then (0, 0, 0, 0) else (0xFFFF, 0xFFFF, 0xFFFF, 0xFFFF)) \<rparr>"

section \<open>Floating-point arithmetic\<close>

text \<open>
  The arithmetic of \<^verbatim>\<open>float64\<close> rounds, it overflows to an infinity, it divides by zero,
  and \<^verbatim>\<open>int(x)\<close> of a value outside the range of \<^verbatim>\<open>int\<close> is left to the implementation.
  None of this is fixed here. The synthesis is defined over a type \<open>'f\<close> of \<^verbatim>\<open>float64\<close>
  values and a record of the operations that the code applies to them, both arbitrary,
  so that what is proved of the synthesis for every such record is proved of what the
  machine computes, also where the compiler fuses two operations into one (take for
  \<open>'f\<close> the expressions, which the comparisons and the conversion evaluate).

  \<^item> \<open>fconst r\<close>: the \<^verbatim>\<open>float64\<close> of the constant or stored value \<open>r\<close>;
  \<^item> \<open>fint i\<close>: the conversion \<^verbatim>\<open>float64(i)\<close> of an \<^verbatim>\<open>int\<close>;
  \<^item> \<open>fadd\<close>, \<open>fsub\<close>, \<open>fmul\<close>, \<open>fdiv\<close>: the operators \<^verbatim>\<open>+\<close>, \<^verbatim>\<open>-\<close>, \<^verbatim>\<open>*\<close>, \<^verbatim>\<open>/\<close>;
  \<^item> \<open>fless\<close>: the comparison \<^verbatim>\<open><\<close>;
  \<^item> \<open>fceil\<close>: \<^verbatim>\<open>math.Ceil\<close>;
  \<^item> \<open>ftoint\<close>: the conversion \<^verbatim>\<open>int(x)\<close>.
\<close>

record 'f float_ops =
  fconst :: "rat \<Rightarrow> 'f"
  fint :: "int \<Rightarrow> 'f"
  fadd :: "'f \<Rightarrow> 'f \<Rightarrow> 'f"
  fsub :: "'f \<Rightarrow> 'f \<Rightarrow> 'f"
  fmul :: "'f \<Rightarrow> 'f \<Rightarrow> 'f"
  fdiv :: "'f \<Rightarrow> 'f \<Rightarrow> 'f"
  fless :: "'f \<Rightarrow> 'f \<Rightarrow> bool"
  fceil :: "'f \<Rightarrow> 'f"
  ftoint :: "'f \<Rightarrow> int"

text \<open>
  \<open>exact\<close> carries the operations out on rationals, without rounding, and converts to
  the unbounded \<open>int\<close>. It is what the machine computes where every operation involved
  is exact in \<^verbatim>\<open>float64\<close> or feeds a comparison that rounding does not change, no
  divisor is zero and no value leaves the range of \<^verbatim>\<open>int\<close>. It serves to run the code
  at such inputs.
\<close>

definition exact :: "rat float_ops" where
  "exact = \<lparr> fconst = (\<lambda>r. r), fint = of_int,
             fadd = (+), fsub = (-), fmul = (*), fdiv = (/),
             fless = (<),
             fceil = (\<lambda>x. of_int \<lceil>x\<rceil>),
             ftoint = (\<lambda>x. if 0 \<le> x then \<lfloor>x\<rfloor> else \<lceil>x\<rceil>) \<rparr>"

section \<open>The synthesis\<close>

text \<open>
  \<^verbatim>\<open>projSeparation\<close>: the separation, in pixels, of the two images of a point at depth
  \<open>z\<close>: \<^verbatim>\<open>int(math.Ceil((1 - mu*z) * e / (2 - mu*z)))\<close>. \<open>quo\<close> is Go's integer division,
  which truncates towards zero.
\<close>

definition projSeparation :: "'f float_ops \<Rightarrow> 'f \<Rightarrow> 'f \<Rightarrow> 'f \<Rightarrow> int" where
  "projSeparation fp z mu e =
     ftoint fp (fceil fp
       (fdiv fp (fmul fp (fsub fp (fconst fp 1) (fmul fp mu z)) e)
                (fsub fp (fconst fp 2) (fmul fp mu z))))"

definition quo :: "int \<Rightarrow> int \<Rightarrow> int" where
  "quo a b = (if (0 \<le> a) = (0 \<le> b) then \<bar>a\<bar> div \<bar>b\<bar> else - (\<bar>a\<bar> div \<bar>b\<bar>))"

text \<open>
  The package draws its colours from the process-wide source of \<^verbatim>\<open>math/rand\<close>, which
  serves one call of \<^verbatim>\<open>rand.Intn\<close> at a time. A goroutine sees of the source only what
  its own calls return. That is what a \<open>rand_source\<close> holds: \<open>src i\<close> stands for the
  result of the goroutine's call number \<open>i\<close> (counted from 0), given as any natural
  number and read modulo \<open>n\<close>, as \<^verbatim>\<open>rand.Intn(n)\<close> returns a value below \<open>n\<close>. How many raw
  values the library consumes for a result is not modelled. The state that the goroutine
  threads through its calls is the number \<open>pos\<close> of calls it has made. The code calls
  \<^verbatim>\<open>rand.Intn\<close> only with \<open>n = 256\<close> and with the length of a non-empty palette.
\<close>

type_synonym rand_source = "nat \<Rightarrow> nat"

definition Intn :: "nat \<Rightarrow> rand_source \<Rightarrow> nat \<Rightarrow> nat \<times> nat" where
  "Intn n src pos = (src pos mod n, Suc pos)"

definition getRandomPaletteColor :: "Color list \<Rightarrow> rand_source \<Rightarrow> nat \<Rightarrow> Color \<times> nat" where
  "getRandomPaletteColor palette src pos =
     (if length palette = 0 then
        (case Intn 256 src pos of (r, pos1) \<Rightarrow>
         case Intn 256 src pos1 of (g, pos2) \<Rightarrow>
         case Intn 256 src pos2 of (b, pos3) \<Rightarrow>
           (\<lparr> R = of_nat r, G = of_nat g, B = of_nat b, A = 255 \<rparr>, pos3))
      else
        (case Intn (length palette) src pos of (i, pos1) \<Rightarrow> (palette ! i, pos1)))"

text \<open>
  Indexing \<^verbatim>\<open>zBuf[x][y]\<close> panics out of range. The column index is computed from
  \<open>x - t\<close> and can be negative; the row index is the loop variable of the caller.
\<close>

definition zBuf_at :: "'f list list \<Rightarrow> int \<Rightarrow> nat \<Rightarrow> error + 'f" where
  "zBuf_at zBuf x y =
     (if x < 0 \<or> int (length zBuf) \<le> x then Inl (IndexOutOfRange x)
      else if length (zBuf ! nat x) \<le> y then Inl (IndexOutOfRange (int y))
      else Inr (zBuf ! nat x ! y))"

text \<open>
  The occlusion scan \<^verbatim>\<open>for t := 1; ; t++\<close> of column \<open>x\<close>, whose depth \<open>z\<close> has been read
  already, with \<^verbatim>\<open>zt := z + 2*(2-mu*z)*float64(t)/(mu*e)\<close>. Go's \<^verbatim>\<open>&&\<close> reads
  \<^verbatim>\<open>zBuf[x+t][y]\<close> only when the left comparison holds. The result is the last value of
  \<^verbatim>\<open>isVisible\<close>, or the panic of an index out of range. Every further round has read
  \<^verbatim>\<open>zBuf[x+t]\<close> in range, which bounds the number of rounds.
\<close>

function visible_loop ::
  "'f float_ops \<Rightarrow> 'f list list \<Rightarrow> 'f \<Rightarrow> 'f \<Rightarrow> int \<Rightarrow> nat \<Rightarrow> 'f \<Rightarrow> nat \<Rightarrow> error + bool"
where
  "visible_loop fp zBuf mu e x y z t =
     (let zt = fadd fp z
                 (fdiv fp
                    (fmul fp (fmul fp (fconst fp 2) (fsub fp (fconst fp 2) (fmul fp mu z)))
                             (fint fp (int t)))
                    (fmul fp mu e)) in
      case zBuf_at zBuf (x - int t) y of
        Inl er \<Rightarrow> Inl er
      | Inr zl \<Rightarrow>
          if \<not> fless fp zl zt then Inr False
          else
            (case zBuf_at zBuf (x + int t) y of
               Inl er \<Rightarrow> Inl er
             | Inr zr \<Rightarrow>
                 if \<not> (fless fp zr zt \<and> fless fp zt (fconst fp 1)) then Inr (fless fp zr zt)
                 else visible_loop fp zBuf mu e x y z (t + 1)))"
  by pat_completeness auto
termination
proof (relation "measure (\<lambda>(fp, zBuf, mu, e, x, y, z, t). nat (int (length zBuf) - (x + int t)))")
  show "wf (measure (\<lambda>(fp :: 'f float_ops, zBuf :: 'f list list, mu :: 'f, e :: 'f, x, y :: nat,
                        z :: 'f, t). nat (int (length zBuf) - (x + int t))))"
    by simp
next
  fix fp :: "'f float_ops" and zBuf :: "'f list list" and mu e :: 'f and x :: int and y :: nat
    and z :: 'f and t :: nat and zt zl zr
  assume "zBuf_at zBuf (x + int t) y = Inr zr"
  then have "x + int t < int (length zBuf)"
    by (auto simp: zBuf_at_def split: if_splits)
  then show "((fp, zBuf, mu, e, x, y, z, t + 1), (fp, zBuf, mu, e, x, y, z, t))
      \<in> measure (\<lambda>(fp, zBuf, mu, e, x, y, z, t). nat (int (length zBuf) - (x + int t)))"
    by simp
qed

declare visible_loop.simps [simp del]

text \<open>
  The loop \<^verbatim>\<open>for k := same[left]; k != left && k != right; k = same[left]\<close>. Nothing in
  the code bounds it, so it is a partial function: \<open>None\<close> is a loop that never ends.
\<close>

partial_function (option) link_loop :: "int list \<Rightarrow> int \<Rightarrow> int \<Rightarrow> (error + int \<times> int) option"
where
  "link_loop same left right =
     (if left < 0 \<or> int (length same) \<le> left then Some (Inl (IndexOutOfRange left))
      else if same ! nat left \<noteq> left \<and> same ! nat left \<noteq> right then
        (if same ! nat left < right then link_loop same (same ! nat left) right
         else link_loop same right (same ! nat left))
      else Some (Inr (left, right)))"

declare link_loop.simps [code]

text \<open>
  One round of the left-to-right pass over the columns of row \<open>y\<close>, on the link table
  \<open>same\<close>, and the whole pass.
\<close>

definition link_step ::
  "'f float_ops \<Rightarrow> 'f list list \<Rightarrow> nat \<Rightarrow> 'f \<Rightarrow> 'f \<Rightarrow> nat \<Rightarrow> int list \<Rightarrow> nat
    \<Rightarrow> (error + int list) option"
where
  "link_step fp zBuf imgWidth mu e y same x =
     (case zBuf_at zBuf (int x) y of
        Inl er \<Rightarrow> Some (Inl er)
      | Inr z \<Rightarrow>
          let s = projSeparation fp z mu e;
              left = int x - quo (s + (s AND int y AND 1)) 2;
              right = left + s
          in
            if left < 0 \<or> right \<ge> int imgWidth then Some (Inr same)
            else
              (case visible_loop fp zBuf mu e (int x) y z 1 of
                 Inl er \<Rightarrow> Some (Inl er)
               | Inr isVisible \<Rightarrow>
                   if \<not> isVisible then Some (Inr same)
                   else
                     (case link_loop same left right of
                        None \<Rightarrow> None
                      | Some (Inl er) \<Rightarrow> Some (Inl er)
                      | Some (Inr (l, r)) \<Rightarrow> Some (Inr (same[nat l := r])))))"

fun link_pass ::
  "'f float_ops \<Rightarrow> 'f list list \<Rightarrow> nat \<Rightarrow> 'f \<Rightarrow> 'f \<Rightarrow> nat \<Rightarrow> nat list \<Rightarrow> int list
    \<Rightarrow> (error + int list) option"
where
  "link_pass fp zBuf imgWidth mu e y [] same = Some (Inr same)"
| "link_pass fp zBuf imgWidth mu e y (x # xs) same =
     (case link_step fp zBuf imgWidth mu e y same x of
        None \<Rightarrow> None
      | Some (Inl er) \<Rightarrow> Some (Inl er)
      | Some (Inr same') \<Rightarrow> link_pass fp zBuf imgWidth mu e y xs same')"

text \<open>
  The right-to-left pass colours the row. Each round assigns \<^verbatim>\<open>pixels[x]\<close> and calls
  \<^verbatim>\<open>img.Set(x, y, pixels[x])\<close>; the calls are recorded in order, and the image is what
  they leave behind. The pass returns the final \<^verbatim>\<open>pixels\<close>, the calls, and the number of
  calls of \<^verbatim>\<open>rand.Intn\<close> that the goroutine has made.
\<close>

type_synonym set_call = "nat \<times> nat \<times> Color"

fun colour_pass ::
  "int list \<Rightarrow> Color list \<Rightarrow> nat \<Rightarrow> nat list \<Rightarrow> Color list \<Rightarrow> set_call list \<Rightarrow> rand_source \<Rightarrow> nat
    \<Rightarrow> error + Color list \<times> set_call list \<times> nat"
where
  "colour_pass same palette y [] pixels calls src pos = Inr (pixels, calls, pos)"
| "colour_pass same palette y (x # xs) pixels calls src pos =
     (if length same \<le> x \<or> length pixels \<le> x then Inl (IndexOutOfRange (int x))
      else if same ! x < 0 \<or> int (length pixels) \<le> same ! x
        then Inl (IndexOutOfRange (same ! x))
      else
        let pixels1 = pixels[x := pixels ! nat (same ! x)] in
        if same ! x = int x then
          (case getRandomPaletteColor palette src pos of
             (c, pos') \<Rightarrow>
               colour_pass same palette y xs (pixels1[x := c]) (calls @ [(x, y, c)]) src pos')
        else
          colour_pass same palette y xs pixels1 (calls @ [(x, y, pixels1 ! x)]) src pos)"

definition zeroColor :: Color where
  "zeroColor = \<lparr> R = 0, G = 0, B = 0, A = 0 \<rparr>"

text \<open>
  The body of the goroutine started for row \<open>y\<close>; \<open>src\<close> holds what its calls of
  \<^verbatim>\<open>rand.Intn\<close> return. It returns the calls of \<^verbatim>\<open>Set\<close> it has made and the number of
  its calls of \<^verbatim>\<open>rand.Intn\<close>.
\<close>

definition row_worker ::
  "'f float_ops \<Rightarrow> 'f list list \<Rightarrow> nat \<Rightarrow> 'f \<Rightarrow> 'f \<Rightarrow> Color list \<Rightarrow> nat \<Rightarrow> rand_source
    \<Rightarrow> (error + set_call list \<times> nat) option"
where
  "row_worker fp zBuf imgWidth mu e palette y src =
     (case link_pass fp zBuf imgWidth mu e y [0..<imgWidth] (map int [0..<imgWidth]) of
        None \<Rightarrow> None
      | Some (Inl er) \<Rightarrow> Some (Inl er)
      | Some (Inr same) \<Rightarrow>
          (case colour_pass same palette y (rev [0..<imgWidth])
                  (replicate imgWidth zeroColor) [] src 0 of
             Inl er \<Rightarrow> Some (Inl er)
           | Inr (pixels, calls, pos) \<Rightarrow> Some (Inr (calls, pos))))"

text \<open>
  \<^verbatim>\<open>drawAutoStereogram\<close> starts one goroutine per row and waits for all of them
  (\<^verbatim>\<open>wg.Wait()\<close>). The goroutines meet at the colour source only: each owns its link
  table and \<^verbatim>\<open>pixels\<close>, and writes the pixels of its own row. Which results of the
  source a goroutine receives is decided by the Go scheduler; no result of one call
  changes whether or with what bound a goroutine calls again. A run of the program is
  therefore described by \<open>srcs\<close>, which gives for each row \<open>y\<close> the results \<open>srcs y\<close> that
  the goroutine of that row receives. Every interleaving of the goroutines' calls gives
  such a family (\<open>deal\<close> below), and what holds for every family holds for every
  interleaving.

  \<open>wait_all\<close>: a panic in one goroutine ends the program, also while another never
  returns; of several panics the program reports the first in time, the model that of
  the lowest row. When all goroutines return, the image is what their calls of \<^verbatim>\<open>Set\<close>
  leave behind; the calls of different rows write different pixels and are recorded row
  after row.

  \<^verbatim>\<open>image.NewRGBA\<close> gives an image whose pixels are all zero; it is modelled as its rows,
  top to bottom. \<^verbatim>\<open>Set\<close> ignores a point outside the image.
\<close>

fun wait_all :: "(error + set_call list \<times> nat) option list \<Rightarrow> (error + set_call list) option"
where
  "wait_all [] = Some (Inr [])"
| "wait_all (r # rs) =
     (case r of
        Some (Inl er) \<Rightarrow> Some (Inl er)
      | None \<Rightarrow> (case wait_all rs of Some (Inl er) \<Rightarrow> Some (Inl er) | _ \<Rightarrow> None)
      | Some (Inr (calls, n)) \<Rightarrow>
          (case wait_all rs of
             None \<Rightarrow> None
           | Some (Inl er) \<Rightarrow> Some (Inl er)
           | Some (Inr calls') \<Rightarrow> Some (Inr (calls @ calls'))))"

definition run_workers ::
  "'f float_ops \<Rightarrow> (nat \<Rightarrow> rand_source) \<Rightarrow> 'f list list \<Rightarrow> nat \<Rightarrow> nat \<Rightarrow> 'f \<Rightarrow> 'f \<Rightarrow> Color list
    \<Rightarrow> (error + set_call list \<times> nat) option list"
where
  "run_workers fp srcs zBuf imgWidth imgHeight mu e palette =
     map (\<lambda>y. row_worker fp zBuf imgWidth mu e palette y (srcs y)) [0..<imgHeight]"

type_synonym RGBA = "Color list list"

definition NewRGBA :: "nat \<Rightarrow> nat \<Rightarrow> RGBA" where
  "NewRGBA w h = replicate h (replicate w zeroColor)"

definition RGBA_Set :: "RGBA \<Rightarrow> set_call \<Rightarrow> RGBA" where
  "RGBA_Set img call =
     (case call of (x, y, c) \<Rightarrow>
        if y < length img \<and> x < length (img ! y) then img[y := (img ! y)[x := c]] else img)"

definition drawAutoStereogram ::
  "'f float_ops \<Rightarrow> (nat \<Rightarrow> rand_source) \<Rightarrow> 'f list list \<Rightarrow> nat \<Rightarrow> nat \<Rightarrow> 'f \<Rightarrow> 'f \<Rightarrow> Color list
    \<Rightarrow> (error + RGBA) option"
where
  "drawAutoStereogram fp srcs zBuf imgWidth imgHeight mu e palette =
     (case wait_all (run_workers fp srcs zBuf imgWidth imgHeight mu e palette) of
        None \<Rightarrow> None
      | Some (Inl er) \<Rightarrow> Some (Inl er)
      | Some (Inr calls) \<Rightarrow> Some (Inr (foldl RGBA_Set (NewRGBA imgWidth imgHeight) calls)))"

text \<open>
  The shared source and the order of the draws. \<open>src i\<close> stands for the result of the
  call number \<open>i\<close> of \<^verbatim>\<open>rand.Intn\<close> in the whole run, and \<open>sched\<close> lists, call after call,
  the row of the goroutine that makes it. \<open>deal sched src y\<close> is what the goroutine of row
  \<open>y\<close> receives: its call number \<open>j\<close> is the call of the run at the place of the
  occurrence number \<open>j\<close> of \<open>y\<close> in \<open>sched\<close>. A list \<open>sched\<close> is the order of the draws of a
  run when it names every goroutine as often as that goroutine draws (\<open>is_schedule\<close>,
  with \<open>draws\<close> the numbers of calls that the goroutines make); the value \<open>0\<close> that \<open>deal\<close>
  gives beyond the list is then never read.
\<close>

definition slots :: "nat list \<Rightarrow> nat \<Rightarrow> nat list" where
  "slots sched y = filter (\<lambda>i. sched ! i = y) [0..<length sched]"

definition deal :: "nat list \<Rightarrow> rand_source \<Rightarrow> nat \<Rightarrow> rand_source" where
  "deal sched src y j = (if j < length (slots sched y) then src (slots sched y ! j) else 0)"

definition draws ::
  "'f float_ops \<Rightarrow> (nat \<Rightarrow> rand_source) \<Rightarrow> 'f list list \<Rightarrow> nat \<Rightarrow> nat \<Rightarrow> 'f \<Rightarrow> 'f \<Rightarrow> Color list
    \<Rightarrow> nat list"
where
  "draws fp srcs zBuf imgWidth imgHeight mu e palette =
     map (\<lambda>r. case r of Some (Inr (calls, n)) \<Rightarrow> n | _ \<Rightarrow> 0)
         (run_workers fp srcs zBuf imgWidth imgHeight mu e palette)"

definition is_schedule :: "nat list \<Rightarrow> nat list \<Rightarrow> bool" where
  "is_schedule sched ds \<longleftrightarrow>
     map (count_list sched) [0..<length ds] = ds \<and> length sched = sum_list ds"

section \<open>Configuration and entry point\<close>

text \<open>
  A \<^verbatim>\<open>StereogramOption\<close> is a function that updates the configuration; the type is
  exported, and so are the fields of the configuration, so that a caller can write an
  option of their own (\<open>callerOption_Mu\<close> is one that sets \<^verbatim>\<open>Mu\<close>). The default
  \<^verbatim>\<open>Mu: 1 / 3.\<close> is the constant \<open>1 / 3\<close>, which \<open>fconst\<close> turns into a \<^verbatim>\<open>float64\<close>.
  \<^verbatim>\<open>image.Decode\<close> is outside the package: its result is an argument of
  \<open>NewStereogramFromMask\<close>.
\<close>

record StereogramConfig =
  MaskTransparentColor :: "Color option"
  Palette :: "Color list"
  Mu :: float64
  DPI :: int
  ERatio :: float64

definition defaultStereogramCfg :: StereogramConfig where
  "defaultStereogramCfg =
     \<lparr> MaskTransparentColor = None, Palette = [], Mu = 1 / 3, DPI = 72, ERatio = 5 / 2 \<rparr>"

type_synonym StereogramOption = "StereogramConfig \<Rightarrow> StereogramConfig"

definition WithMaskTransparentColor :: "Color \<Rightarrow> StereogramOption" where
  "WithMaskTransparentColor color cfg = cfg\<lparr> MaskTransparentColor := Some color \<rparr>"

definition WithColorPalette :: "Color list \<Rightarrow> StereogramOption" where
  "WithColorPalette palette cfg = cfg\<lparr> Palette := palette \<rparr>"

definition WithOutputDPI :: "int \<Rightarrow> StereogramOption" where
  "WithOutputDPI dpi cfg = cfg\<lparr> DPI := dpi \<rparr>"

definition WithEyeSepartionRatio :: "float64 \<Rightarrow> StereogramOption" where
  "WithEyeSepartionRatio ratio cfg = cfg\<lparr> ERatio := ratio \<rparr>"

definition callerOption_Mu :: "float64 \<Rightarrow> StereogramOption" where
  "callerOption_Mu mu cfg = cfg\<lparr> Mu := mu \<rparr>"

definition NewStereogramFromMask ::
  "'f float_ops \<Rightarrow> (nat \<Rightarrow> rand_source) \<Rightarrow> error + Image \<Rightarrow> StereogramOption list
    \<Rightarrow> (error + RGBA) option"
where
  "NewStereogramFromMask fp srcs decoded opts =
     (case decoded of
        Inl err \<Rightarrow> Some (Inl DecodeFailed)
      | Inr maskImg \<Rightarrow>
          let cfg = foldl (\<lambda>cfg opt. opt cfg) defaultStereogramCfg opts;
              e = fceil fp (fmul fp (fconst fp (ERatio cfg)) (fint fp (DPI cfg)));
              imgWidth = Dx maskImg;
              imgHeight = Dy maskImg
          in drawAutoStereogram fp srcs
               (map (map (fconst fp)) (newDepthBufferFromImage maskImg (MaskTransparentColor cfg)))
               imgWidth imgHeight (fconst fp (Mu cfg)) e (Palette cfg))"

section \<open>Predicates and inputs used in the statements\<close>

text \<open>
  \<open>separations_nonneg\<close>: \<open>projSeparation\<close> returns no negative separation for a depth of
  the field. \<open>depth_in_unit\<close>: every depth lies in \<open>[0, 1]\<close>. \<open>link_inv\<close>: every link points
  to its own column or to one on its right, inside the row. \<open>coord\<close>: the point a call
  of \<^verbatim>\<open>Set\<close> writes. \<open>agree n\<close>: two sources give the same first \<open>n\<close> results.
\<close>

definition separations_nonneg :: "'f float_ops \<Rightarrow> 'f list list \<Rightarrow> 'f \<Rightarrow> 'f \<Rightarrow> bool" where
  "separations_nonneg fp zBuf mu e \<longleftrightarrow>
     (\<forall>col \<in> set zBuf. \<forall>z \<in> set col. 0 \<le> projSeparation fp z mu e)"

definition depth_in_unit :: "float64 list list \<Rightarrow> bool" where
  "depth_in_unit zBuf \<longleftrightarrow> (\<forall>col \<in> set zBuf. \<forall>z \<in> set col. 0 \<le> z \<and> z \<le> 1)"

definition link_inv :: "nat \<Rightarrow> int list \<Rightarrow> bool" where
  "link_inv w same \<longleftrightarrow> length same = w \<and> (\<forall>i<w. int i \<le> same ! i \<and> same ! i < int w)"

definition coord :: "set_call \<Rightarrow> nat \<times> nat" where
  "coord call = (case call of (x, y, c) \<Rightarrow> (x, y))"

definition agree :: "nat \<Rightarrow> rand_source \<Rightarrow> rand_source \<Rightarrow> bool" where
  "agree n s1 s2 \<longleftrightarrow> (\<forall>i<n. s1 i = s2 i)"

definition capped_source :: rand_source where
  "capped_source i = (if i < 4 then i else 0)"

definition red :: Color where "red = \<lparr> R = 255, G = 0, B = 0, A = 255 \<rparr>"
definition blue :: Color where "blue = \<lparr> R = 0, G = 0, B = 255, A = 255 \<rparr>"

definition mask_0x2 :: Image where
  "mask_0x2 = \<lparr> Dx = 0, Dy = 2, At = (\<lambda>x y. (0, 0, 0, 0)) \<rparr>"

definition mask_5x1 :: Image where
  "mask_5x1 = \<lparr> Dx = 5, Dy = 1,
                At = (\<lambda>x y. if x = 2 then (0xFFFF, 0xFFFF, 0xFFFF, 0xFFFF) else (0, 0, 0, 0)) \<rparr>"

section \<open>Colour formatting and parsing\<close>

lemma digitVal_hexDigit: "\<forall>n<16. digitVal (hexDigit n) = Some n"
proof -
  have "\<forall>n \<in> set [0,1,2,3,4,5,6,7,8,9,10,11,12,13,14,15]. digitVal (hexDigit n) = Some n"
    by (simp add: digitVal_def hexDigit_def lower_def)
  moreover have "n < 16 \<Longrightarrow> n \<in> set [0,1,2,3,4,5,6,7,8,9,10,11,12,13,14,15]" for n :: nat
    by (simp; arith)
  ultimately show ?thesis by blast
qed

lemma unat_byte_less: "unat (b :: 8 word) < 256"
  using unsigned_less [of b, where 'a = nat] by simp

lemma parse_hexDigit:
  assumes "d < 16" and "n * 16 + d < 2 ^ 32"
  shows "parse_digits 16 32 n (hexDigit d # rest) = parse_digits 16 32 (n * 16 + d) rest"
proof -
  have dv: "digitVal (hexDigit d) = Some d"
    using digitVal_hexDigit assms(1) by blast
  have "\<not> 16 \<le> d" using assms(1) by simp
  moreover have "\<not> n \<ge> (2 ^ 64 - 1) div 16 + 1" using assms(2) by simp
  moreover have "\<not> n * 16 + d > 2 ^ 32 - 1" using assms(2) by simp
  ultimately show ?thesis
    unfolding parse_digits.simps dv option.case by (simp only: if_False)
qed

lemma parse_byte:
  assumes "n * 256 + unat b < 2 ^ 32"
  shows "parse_digits 16 32 n (fmt_02X b @ rest) = parse_digits 16 32 (n * 256 + unat b) rest"
proof -
  have hi: "unat b div 16 < 16" using unat_byte_less [of b] by simp
  have lo: "unat b mod 16 < 16" by simp
  have eq: "(n * 16 + unat b div 16) * 16 + unat b mod 16 = n * 256 + unat b" by simp
  have le1: "n * 16 + unat b div 16 < 2 ^ 32" using assms by simp
  have le2: "(n * 16 + unat b div 16) * 16 + unat b mod 16 < 2 ^ 32" using assms eq by simp
  show ?thesis
    unfolding fmt_02X_def append.simps parse_hexDigit [OF hi le1] parse_hexDigit [OF lo le2] eq ..
qed

lemma Hex_parse:
  "parse_digits 16 32 0 (tl (Hex c)) =
     Inr (((unat (R c) * 256 + unat (G c)) * 256 + unat (B c)) * 256 + unat (A c))"
proof -
  have r: "unat (R c) < 256" and g: "unat (G c) < 256"
    and b: "unat (B c) < 256" and a: "unat (A c) < 256"
    by (rule unat_byte_less)+
  have 1: "parse_digits 16 32 0 (fmt_02X (R c) @ fmt_02X (G c) @ fmt_02X (B c) @ fmt_02X (A c))
         = parse_digits 16 32 (unat (R c)) (fmt_02X (G c) @ fmt_02X (B c) @ fmt_02X (A c))"
    using parse_byte [of 0 "R c"] r by simp
  have 2: "parse_digits 16 32 (unat (R c)) (fmt_02X (G c) @ fmt_02X (B c) @ fmt_02X (A c))
         = parse_digits 16 32 (unat (R c) * 256 + unat (G c)) (fmt_02X (B c) @ fmt_02X (A c))"
    using parse_byte [of "unat (R c)" "G c"] r g by simp
  have 3: "parse_digits 16 32 (unat (R c) * 256 + unat (G c)) (fmt_02X (B c) @ fmt_02X (A c))
         = parse_digits 16 32 ((unat (R c) * 256 + unat (G c)) * 256 + unat (B c))
             (fmt_02X (A c) @ [])"
    using parse_byte [of "unat (R c) * 256 + unat (G c)" "B c" "fmt_02X (A c) @ []"] r g b
    by simp
  have 4: "parse_digits 16 32 ((unat (R c) * 256 + unat (G c)) * 256 + unat (B c))
             (fmt_02X (A c) @ [])
         = parse_digits 16 32
             (((unat (R c) * 256 + unat (G c)) * 256 + unat (B c)) * 256 + unat (A c)) []"
    using parse_byte [of "(unat (R c) * 256 + unat (G c)) * 256 + unat (B c)" "A c" "[]"] r g b a
    by simp
  have "tl (Hex c) = fmt_02X (R c) @ fmt_02X (G c) @ fmt_02X (B c) @ fmt_02X (A c)"
    by (simp add: Hex_def)
  then show ?thesis
    using 1 2 3 4 by simp
qed

lemma nat_and_255: "(x::nat) AND 255 = x mod 256"
proof -
  have "(255::nat) = mask 8" by (simp add: mask_eq_exp_minus_1)
  then have "x AND 255 = take_bit 8 x" by (simp add: take_bit_eq_mask)
  then show ?thesis by (simp add: take_bit_eq_mod)
qed

lemma low_byte: "lo < 256 \<Longrightarrow> (hi * 256 + lo) mod 256 = (lo::nat)"
  by simp

lemma unpack_bytes:
  fixes r g b a :: nat
  assumes "r < 256" "g < 256" "b < 256" "a < 256"
  defines "n \<equiv> ((r * 256 + g) * 256 + b) * 256 + a"
  shows "n div 16777216 mod 256 = r" "n div 65536 mod 256 = g"
    "n div 256 mod 256 = b" "n mod 256 = a"
proof -
  have d1: "n div 256 = (r * 256 + g) * 256 + b"
    unfolding n_def using assms(4) by simp
  have d2: "n div 256 div 256 = r * 256 + g"
    unfolding d1 using assms(3) by simp
  have d3: "n div 256 div 256 div 256 = r"
    unfolding d2 using assms(2) by simp
  have e2: "n div 65536 = n div 256 div 256" by (simp add: div_mult2_eq)
  have e3: "n div 16777216 = n div 256 div 256 div 256" by (simp add: div_mult2_eq)
  show "n div 16777216 mod 256 = r" unfolding e3 d3 using assms(1) by simp
  show "n div 65536 mod 256 = g" unfolding e2 d2 using assms(2) by (rule low_byte)
  show "n div 256 mod 256 = b" unfolding d1 using assms(3) by (rule low_byte)
  show "n mod 256 = a" unfolding n_def using assms(4) by (rule low_byte)
qed

lemma bytes_of_value:
  fixes r g b a :: "8 word"
  defines "v \<equiv> (word_of_nat (((unat r * 256 + unat g) * 256 + unat b) * 256 + unat a) :: 64 word)"
  shows "ucast (drop_bit 24 v) = r" "ucast (drop_bit 16 v AND 0xFF) = g"
    "ucast (drop_bit 8 v AND 0xFF) = b" "ucast (v AND 0xFF) = a"
proof -
  have r: "unat r < 256" and g: "unat g < 256" and b: "unat b < 256" and a: "unat a < 256"
    by (rule unat_byte_less)+
  let ?n = "((unat r * 256 + unat g) * 256 + unat b) * 256 + unat a"
  have n: "?n < 2 ^ 64" using r g b a by simp
  have uv: "unat v = ?n" unfolding v_def unat_of_nat using n by simp
  note conv = unsigned_ucast_eq unat_drop_bit_eq unsigned_and_eq nat_and_255
    take_bit_eq_mod drop_bit_eq_div [where ?'a = nat]
  note up = unpack_bytes [OF r g b a, folded uv]
  have "unat (ucast (drop_bit 24 v) :: 8 word) = unat r"
    using up(1) by (simp add: conv)
  then show "ucast (drop_bit 24 v) = r" by (rule word_unat_eq_iff [THEN iffD2])
  have "unat (ucast (drop_bit 16 v AND 0xFF) :: 8 word) = unat g"
    using up(2) by (simp add: conv)
  then show "ucast (drop_bit 16 v AND 0xFF) = g" by (rule word_unat_eq_iff [THEN iffD2])
  have "unat (ucast (drop_bit 8 v AND 0xFF) :: 8 word) = unat b"
    using up(3) by (simp add: conv)
  then show "ucast (drop_bit 8 v AND 0xFF) = b" by (rule word_unat_eq_iff [THEN iffD2])
  have "unat (ucast (v AND 0xFF) :: 8 word) = unat a"
    using up(4) by (simp add: conv)
  then show "ucast (v AND 0xFF) = a" by (rule word_unat_eq_iff [THEN iffD2])
qed

text \<open>
  C10: for every colour \<open>c\<close>, parsing the text that \<open>Hex\<close> prints for \<open>c\<close> succeeds and
  gives back \<open>c\<close>, channel by channel.
\<close>

theorem Hex_roundtrip: "ColorFromHex (Hex c) = Inr c"
proof -
  have trim: "TrimPrefix (Hex c) ''#'' = tl (Hex c)"
    by (simp add: TrimPrefix_def Hex_def)
  have len: "length (tl (Hex c)) = 8"
    by (simp add: Hex_def fmt_02X_def)
  have ne: "tl (Hex c) \<noteq> []" by (simp add: Hex_def fmt_02X_def)
  have pad: "(if length (tl (Hex c)) < 8
              then tl (Hex c) @ replicate (8 - length (tl (Hex c))) CHR ''F''
              else tl (Hex c)) = tl (Hex c)"
    using len by simp
  have parsed: "ParseUint (tl (Hex c)) 16 32 =
      Inr (word_of_nat (((unat (R c) * 256 + unat (G c)) * 256 + unat (B c)) * 256 + unat (A c)))"
    unfolding ParseUint_def Hex_parse using ne by simp
  have "ColorFromHex (Hex c) = Inr \<lparr>R = R c, G = G c, B = B c, A = A c\<rparr>"
    unfolding ColorFromHex_def trim Let_def pad parsed sum.case bytes_of_value ..
  then show ?thesis by simp
qed

section \<open>Mask pixels and the depth buffer\<close>

lemma widen_add: "widen v = ucast v + push_bit 8 (ucast v)"
  unfolding widen_def
proof (rule disjunctive_add [symmetric])
  fix n
  show "\<not> bit (ucast v :: 32 word) n \<or> \<not> bit (push_bit 8 (ucast v) :: 32 word) n"
    by (auto simp: bit_simps dest: bit_imp_le_length)
qed

lemma unat_widen: "unat (widen v) = 257 * unat v"
proof -
  have small: "unat v * 257 < 2 ^ 32" using unat_byte_less [of v] by simp
  have "widen v = of_nat (unat v) + of_nat (unat v * 256)"
    unfolding widen_add by (simp add: push_bit_eq_mult)
  also have "\<dots> = of_nat (unat v * 257)" by simp
  finally have "unat (widen v) = unat (of_nat (unat v * 257) :: 32 word)" by simp
  also have "\<dots> = unat v * 257"
    unfolding unat_of_nat using small by simp
  finally show ?thesis by simp
qed

lemma channel8_div: "channel8 v = of_nat (unat v div 257)"
proof -
  have "(255 * unat v) div (255 * 257) = unat v div 257" by (rule div_mult_mult1) simp
  then show ?thesis unfolding channel8_def by simp
qed

lemma channel8_widen: "channel8 (widen v) = v"
  unfolding channel8_div unat_widen by simp

lemma channel8_eq:
  assumes "v \<le> 0xFFFF"
  shows "channel8 v = c \<longleftrightarrow> unat v div 257 = unat c"
proof -
  have "unat v \<le> 65535" using assms by (simp add: word_le_nat_alt)
  then have small: "unat v div 257 < 256" by simp
  have "unat (of_nat (unat v div 257) :: 8 word) = unat v div 257"
    unfolding unat_of_nat using small by simp
  then show ?thesis unfolding channel8_div word_unat_eq_iff [of _ c] by simp
qed

lemma widen_eq_0: "widen v = 0 \<longleftrightarrow> v = 0"
proof -
  have "widen v = 0 \<longleftrightarrow> unat (widen v) = 0" by (simp add: unat_eq_0)
  also have "\<dots> \<longleftrightarrow> unat v = 0" unfolding unat_widen by simp
  also have "\<dots> \<longleftrightarrow> v = 0" by (simp add: unat_eq_0)
  finally show ?thesis .
qed

lemma ColorRGBA_color_RGBA: "ColorRGBA (color_RGBA c) = c"
  by (simp add: ColorRGBA_def color_RGBA_def channel8_widen)

text \<open>
  C4, what the code compares: take a mask pixel whose method \<^verbatim>\<open>RGBA()\<close> returns the
  channels \<open>(r, g, b, a)\<close>, each at most \<^verbatim>\<open>0xFFFF\<close> (16 bits, alpha-premultiplied). With
  a transparent-colour override the pixel is transparent exactly when each of these
  channels, reduced to 8 bits as the integer quotient by 257, equals the override's
  channel, alpha included; without an override, exactly when \<open>a\<close> is zero. For a pixel
  \<open>c\<close> of an 8-bit RGBA image this is: \<open>c\<close> is the override, and the alpha of \<open>c\<close> is
  zero.
\<close>

theorem isTransparentMaskPixel_iff:
  assumes "r \<le> 0xFFFF" "g \<le> 0xFFFF" "b \<le> 0xFFFF" "a \<le> 0xFFFF"
  shows "(isTransparentMaskPixel (r, g, b, a) (Some tc) \<longleftrightarrow>
            unat r div 257 = unat (R tc) \<and> unat g div 257 = unat (G tc) \<and>
            unat b div 257 = unat (B tc) \<and> unat a div 257 = unat (A tc)) \<and>
         (isTransparentMaskPixel (r, g, b, a) None \<longleftrightarrow> a = 0) \<and>
         (isTransparentMaskPixel (color_RGBA c) (Some tc) \<longleftrightarrow> c = tc) \<and>
         (isTransparentMaskPixel (color_RGBA c) None \<longleftrightarrow> A c = 0)"
proof -
  have "isTransparentMaskPixel (r, g, b, a) (Some tc) \<longleftrightarrow>
            unat r div 257 = unat (R tc) \<and> unat g div 257 = unat (G tc) \<and>
            unat b div 257 = unat (B tc) \<and> unat a div 257 = unat (A tc)"
    unfolding isTransparentMaskPixel_def option.case Equal_def ColorRGBA_def
    using channel8_eq [OF assms(1)] channel8_eq [OF assms(2)]
      channel8_eq [OF assms(3)] channel8_eq [OF assms(4)]
    by auto
  moreover have "isTransparentMaskPixel (r, g, b, a) None \<longleftrightarrow> a = 0"
    by (simp add: isTransparentMaskPixel_def)
  moreover have "isTransparentMaskPixel (color_RGBA c) (Some tc) \<longleftrightarrow> c = tc"
    unfolding isTransparentMaskPixel_def option.case ColorRGBA_color_RGBA Equal_def
    by auto
  moreover have "isTransparentMaskPixel (color_RGBA c) None \<longleftrightarrow> A c = 0"
    by (simp add: isTransparentMaskPixel_def color_RGBA_def widen_eq_0)
  ultimately show ?thesis by blast
qed

text \<open>
  C4 at a white pixel of half opacity, whose premultiplied channels are all
  \<^verbatim>\<open>0x8080\<close>: it matches the override \<open>{128, 128, 128, 128}\<close> and no other, and it is
  not transparent without an override.
\<close>

theorem isTransparentMaskPixel_witness:
  "(0x8080 :: 32 word) \<le> 0xFFFF \<and>
   isTransparentMaskPixel (0x8080, 0x8080, 0x8080, 0x8080)
     (Some \<lparr> R = 128, G = 128, B = 128, A = 128 \<rparr>) \<and>
   \<not> isTransparentMaskPixel (0x8080, 0x8080, 0x8080, 0x8080)
     (Some \<lparr> R = 255, G = 255, B = 255, A = 128 \<rparr>) \<and>
   \<not> isTransparentMaskPixel (0x8080, 0x8080, 0x8080, 0x8080) None"
proof -
  have le: "(0x8080 :: 32 word) \<le> 0xFFFF" by simp
  have u: "unat (0x8080 :: 32 word) div 257 = 128" by simp
  from isTransparentMaskPixel_iff [OF le le le le, of "\<lparr> R = 128, G = 128, B = 128, A = 128 \<rparr>"]
  have 1: "isTransparentMaskPixel (0x8080, 0x8080, 0x8080, 0x8080)
     (Some \<lparr> R = 128, G = 128, B = 128, A = 128 \<rparr>)"
    unfolding u by simp
  from isTransparentMaskPixel_iff [OF le le le le, of "\<lparr> R = 255, G = 255, B = 255, A = 128 \<rparr>"]
  have 2: "\<not> isTransparentMaskPixel (0x8080, 0x8080, 0x8080, 0x8080)
     (Some \<lparr> R = 255, G = 255, B = 255, A = 128 \<rparr>)"
    unfolding u by simp
  from isTransparentMaskPixel_iff [OF le le le le]
  have 3: "\<not> isTransparentMaskPixel (0x8080, 0x8080, 0x8080, 0x8080) None"
    by simp
  show ?thesis using le 1 2 3 by blast
qed

text \<open>
  C4 does not hold of every mask pixel: a pixel with the 16-bit channels \<open>(0, 0, 0, 255)\<close>
  has an alpha that is neither zero nor the alpha of the override \<open>{0, 0, 0, 0}\<close>, whose
  16-bit channels are \<open>(0, 0, 0, 0)\<close>; it is classified transparent under that override
  all the same, because the comparison is made after the reduction to 8 bits.
\<close>

theorem override_match_not_exact:
  "isTransparentMaskPixel (0, 0, 0, 255) (Some zeroColor) \<and>
   (0, 0, 0, 255) \<noteq> color_RGBA zeroColor \<and>
   \<not> isTransparentMaskPixel (0, 0, 0, 255) None"
proof -
  have "channel8 255 = 0" "channel8 0 = 0" by (simp_all add: channel8_def)
  then have "isTransparentMaskPixel (0, 0, 0, 255) (Some zeroColor)"
    by (simp add: isTransparentMaskPixel_def ColorRGBA_def Equal_def zeroColor_def)
  moreover have "(0, 0, 0, 255) \<noteq> color_RGBA zeroColor"
    by (simp add: color_RGBA_def zeroColor_def widen_def)
  moreover have "\<not> isTransparentMaskPixel (0, 0, 0, 255) None"
    by (simp add: isTransparentMaskPixel_def)
  ultimately show ?thesis by blast
qed



section \<open>Separation and links\<close>

text \<open>
  Of the arithmetic on depths, the results on links use one fact only: that no
  separation is negative (\<open>separations_nonneg\<close>). Carried out exactly, the arithmetic
  has this property for \<open>mu\<close> in \<open>(0, 1]\<close>, depths in \<open>[0, 1]\<close> and \<open>e \<ge> 0\<close>.
\<close>

lemma projSeparation_exact:
  "projSeparation exact z mu e = \<lceil>(1 - mu * z) * e / (2 - mu * z)\<rceil>"
  by (simp add: projSeparation_def exact_def)

lemma exact_separation_nonneg:
  assumes "0 < mu" "mu \<le> 1" "0 \<le> z" "z \<le> 1" "0 \<le> e"
  shows "0 \<le> projSeparation exact z mu e"
proof -
  have "mu * z \<le> 1 * 1" using assms by (intro mult_mono) auto
  then have mz: "mu * z \<le> 1" by simp
  then have "0 \<le> (1 - mu * z) * e / (2 - mu * z)"
    using assms by (intro divide_nonneg_nonneg mult_nonneg_nonneg) auto
  then show ?thesis unfolding projSeparation_exact by simp
qed

lemma exact_separations_nonneg:
  assumes "depth_in_unit zBuf" "0 < mu" "mu \<le> 1" "0 \<le> e"
  shows "separations_nonneg exact zBuf mu e"
  unfolding separations_nonneg_def
proof (intro ballI)
  fix col z assume "col \<in> set zBuf" "z \<in> set col"
  then have "0 \<le> z \<and> z \<le> 1" using assms(1) unfolding depth_in_unit_def by blast
  then show "0 \<le> projSeparation exact z mu e"
    using assms(2-4) by (intro exact_separation_nonneg) auto
qed

lemma link_loop_inv:
  assumes "link_loop same left right = Some res"
    and "link_inv w same" "0 \<le> left" "left \<le> right" "right < int w"
  shows "\<exists>l r. res = Inr (l, r) \<and> 0 \<le> l \<and> l \<le> r \<and> r < int w"
  using assms
proof (induction same left right res rule: link_loop.raw_induct [rotated, consumes 1])
  case (1 link_loop' same left right res)
  have len: "length same = w" using "1.prems"(1) by (simp add: link_inv_def)
  have lt: "left < int w" using "1.prems" by simp
  then have nl: "nat left < w" using "1.prems"(2) by simp
  have k: "left \<le> same ! nat left" "same ! nat left < int w"
    using "1.prems"(1,2) nl unfolding link_inv_def
    by (metis int_nat_eq)+
  show ?case
  proof (cases "same ! nat left \<noteq> left \<and> same ! nat left \<noteq> right")
    case False
    then have "res = Inr (left, right)"
      using "1.hyps" "1.prems"(2) lt len by (auto split: if_splits)
    then show ?thesis using "1.prems" by simp
  next
    case True
    show ?thesis
    proof (cases "same ! nat left < right")
      case lt2: True
      then have "link_loop' same (same ! nat left) right = Some res"
        using "1.hyps" True "1.prems"(2) lt len by (auto split: if_splits)
      then show ?thesis
        using "1.IH" [of same "same ! nat left" right res] "1.prems" k lt2 by simp
    next
      case ge: False
      then have "link_loop' same right (same ! nat left) = Some res"
        using "1.hyps" True "1.prems"(2) lt len by (auto split: if_splits)
      then show ?thesis
        using "1.IH" [of same right "same ! nat left" res] "1.prems" k ge by simp
    qed
  qed
qed

lemma zBuf_at_mem:
  assumes "zBuf_at zBuf x y = Inr z"
  shows "\<exists>col \<in> set zBuf. z \<in> set col"
proof -
  from assms have x: "0 \<le> x" "nat x < length zBuf" and y: "y < length (zBuf ! nat x)"
    and z: "z = zBuf ! nat x ! y"
    by (auto simp: zBuf_at_def split: if_splits)
  have "zBuf ! nat x \<in> set zBuf" using x by simp
  moreover have "z \<in> set (zBuf ! nat x)" using y z by simp
  ultimately show ?thesis by blast
qed

lemma link_inv_init: "link_inv w (map int [0..<w])"
  by (simp add: link_inv_def)

lemma link_inv_update:
  assumes "link_inv w same" "0 \<le> l" "l \<le> r" "r < int w"
  shows "link_inv w (same[nat l := r])"
  unfolding link_inv_def
proof (intro conjI allI impI)
  show "length (same[nat l := r]) = w" using assms(1) by (simp add: link_inv_def)
next
  fix i assume i: "i < w"
  have len: "length same = w" using assms(1) by (simp add: link_inv_def)
  have old: "int i \<le> same ! i" "same ! i < int w"
    using assms(1) i by (simp_all add: link_inv_def)
  show "int i \<le> same[nat l := r] ! i"
  proof (cases "i = nat l")
    case True then show ?thesis using assms len i by simp
  next
    case False then show ?thesis using old by simp
  qed
  show "same[nat l := r] ! i < int w"
  proof (cases "i = nat l")
    case True then show ?thesis using assms len i by simp
  next
    case False then show ?thesis using old by simp
  qed
qed

lemma link_step_inv:
  assumes step: "link_step fp zBuf w mu e y same x = Some (Inr same')"
    and inv: "link_inv w same"
    and sign: "separations_nonneg fp zBuf mu e"
  shows "link_inv w same'"
proof -
  from step obtain z where z: "zBuf_at zBuf (int x) y = Inr z"
    by (auto simp: link_step_def split: sum.splits)
  define s where "s = projSeparation fp z mu e"
  define left where "left = int x - quo (s + (s AND int y AND 1)) 2"
  have s0: "0 \<le> s"
    unfolding s_def using zBuf_at_mem [OF z] sign unfolding separations_nonneg_def by blast
  show ?thesis
  proof (cases "left < 0 \<or> left + s \<ge> int w")
    case True
    then have "same' = same"
      using step z by (simp add: link_step_def Let_def s_def left_def)
    then show ?thesis using inv by simp
  next
    case edge: False
    show ?thesis
    proof (cases "visible_loop fp zBuf mu e (int x) y z 1")
      case (Inl er)
      then show ?thesis
        using step z edge by (simp add: link_step_def Let_def s_def left_def)
    next
      case (Inr vis)
      show ?thesis
      proof (cases vis)
        case False
        then have "same' = same"
          using step z edge Inr by (simp add: link_step_def Let_def s_def left_def)
        then show ?thesis using inv by simp
      next
        case True
        then obtain l r where ll: "link_loop same left (left + s) = Some (Inr (l, r))"
          and same': "same' = same[nat l := r]"
          using step z edge Inr
          by (auto simp: link_step_def Let_def s_def left_def split: option.splits sum.splits)
        from link_loop_inv [OF ll inv] edge s0
        have "0 \<le> l \<and> l \<le> r \<and> r < int w" by auto
        then show ?thesis unfolding same' using link_inv_update [OF inv] by blast
      qed
    qed
  qed
qed

lemma link_pass_inv:
  assumes "link_pass fp zBuf w mu e y xs same = Some (Inr same')"
    and "link_inv w same"
    and "separations_nonneg fp zBuf mu e"
  shows "link_inv w same'"
  using assms(1,2)
proof (induction xs arbitrary: same)
  case Nil
  then show ?case by simp
next
  case (Cons x xs)
  from Cons.prems(1) obtain same1 where
    st: "link_step fp zBuf w mu e y same x = Some (Inr same1)"
    and rest: "link_pass fp zBuf w mu e y xs same1 = Some (Inr same')"
    by (auto split: option.splits sum.splits)
  have "link_inv w same1"
    using link_step_inv [OF st Cons.prems(2) assms(3)] .
  then show ?case using Cons.IH [OF rest] by simp
qed

lemma link_pass_links:
  assumes "link_pass fp zBuf w mu e y [0..<w] (map int [0..<w]) = Some (Inr same)"
    and "separations_nonneg fp zBuf mu e"
  shows "link_inv w same"
  using link_pass_inv [OF assms(1) link_inv_init assms(2)] .

section \<open>The colouring pass\<close>

lemma colour_pass_calls:
  assumes "colour_pass same palette y xs pixels calls src pos = Inr (pix, calls', pos')"
  shows "map (\<lambda>(x, y, c). (x, y)) calls' = map (\<lambda>(x, y, c). (x, y)) calls @ map (\<lambda>x. (x, y)) xs"
  using assms
proof (induction xs arbitrary: pixels calls pos)
  case Nil
  then show ?case by simp
next
  case (Cons x xs)
  then show ?case
    by (auto simp: Let_def split: if_splits prod.splits)
qed

lemma fresh_in_palette:
  "palette \<noteq> [] \<Longrightarrow> fst (getRandomPaletteColor palette src pos) \<in> set palette"
  by (simp add: getRandomPaletteColor_def Intn_def)

lemma fresh_opaque:
  "palette = [] \<Longrightarrow> A (fst (getRandomPaletteColor palette src pos)) = 255"
  by (simp add: getRandomPaletteColor_def Intn_def)

lemma colour_pass_step_fresh:
  assumes "n < length same" "same ! n = int n" "n < length pixels"
    and "getRandomPaletteColor palette src pos = (c, pos1)"
  shows "colour_pass same palette y (rev [0..<Suc n]) pixels calls src pos
        = colour_pass same palette y (rev [0..<n]) (pixels[n := c]) (calls @ [(n, y, c)]) src pos1"
  using assms by (simp add: Let_def)

lemma colour_pass_step_copy:
  assumes "n < length same" "same ! n \<noteq> int n" "0 \<le> same ! n" "same ! n < int (length pixels)"
    and "n < length pixels"
  shows "colour_pass same palette y (rev [0..<Suc n]) pixels calls src pos
        = colour_pass same palette y (rev [0..<n]) (pixels[n := pixels ! nat (same ! n)])
            (calls @ [(n, y, pixels ! nat (same ! n))]) src pos"
  using assms by (simp add: Let_def)

lemma colour_pass_step:
  assumes inv: "link_inv w same" and n: "n < w" and len: "length pixels = w"
  obtains v pos1 where
    "colour_pass same palette y (rev [0..<Suc n]) pixels calls src pos
       = colour_pass same palette y (rev [0..<n]) (pixels[n := v]) (calls @ [(n, y, v)]) src pos1"
    "same ! n = int n \<longrightarrow> v = fst (getRandomPaletteColor palette src pos)"
    "same ! n \<noteq> int n \<longrightarrow> v = pixels ! nat (same ! n)"
proof (cases "same ! n = int n")
  case True
  obtain c pos1 where g: "getRandomPaletteColor palette src pos = (c, pos1)" by force
  have st: "colour_pass same palette y (rev [0..<Suc n]) pixels calls src pos
       = colour_pass same palette y (rev [0..<n]) (pixels[n := c]) (calls @ [(n, y, c)]) src pos1"
    using inv n len True g by (intro colour_pass_step_fresh) (simp_all add: link_inv_def)
  show ?thesis
  proof (rule that [of c pos1])
    show "same ! n = int n \<longrightarrow> c = fst (getRandomPaletteColor palette src pos)"
      using g by simp
    show "same ! n \<noteq> int n \<longrightarrow> c = pixels ! nat (same ! n)"
      using True by simp
  qed (rule st)
next
  case False
  have k: "0 \<le> same ! n" "same ! n < int w"
    using inv n unfolding link_inv_def by force+
  have st: "colour_pass same palette y (rev [0..<Suc n]) pixels calls src pos
        = colour_pass same palette y (rev [0..<n]) (pixels[n := pixels ! nat (same ! n)])
            (calls @ [(n, y, pixels ! nat (same ! n))]) src pos"
    using inv n len False k by (intro colour_pass_step_copy) (simp_all add: link_inv_def)
  show ?thesis
  proof (rule that [of "pixels ! nat (same ! n)" pos])
    show "same ! n = int n \<longrightarrow>
        pixels ! nat (same ! n) = fst (getRandomPaletteColor palette src pos)"
      using False by simp
  qed (simp_all add: st del: colour_pass.simps upt_Suc)
qed

lemma colour_pass_linked:
  assumes inv: "link_inv w same"
    and "n \<le> w" "length pixels = w"
    and "\<forall>i. n \<le> i \<and> i < w \<longrightarrow> pixels ! i = pixels ! nat (same ! i)"
  shows "\<exists>pix calls' pos'.
    colour_pass same palette y (rev [0..<n]) pixels calls src pos = Inr (pix, calls', pos') \<and>
    length pix = w \<and>
    (\<forall>i. n \<le> i \<and> i < w \<longrightarrow> pix ! i = pixels ! i) \<and>
    (\<forall>i<w. pix ! i = pix ! nat (same ! i)) \<and>
    (\<forall>i<n. same ! i = int i \<longrightarrow> (\<exists>p. pix ! i = fst (getRandomPaletteColor palette src p))) \<and>
    calls' = calls @ map (\<lambda>x. (x, y, pix ! x)) (rev [0..<n])"
  using assms(2-)
proof (induction n arbitrary: pixels calls pos)
  case 0
  then show ?case by simp
next
  case (Suc n)
  have n: "n < w" using Suc.prems(1) by simp
  have kn: "int n \<le> same ! n" "same ! n < int w"
    using inv n by (simp_all add: link_inv_def)
  from colour_pass_step [OF inv n Suc.prems(2), of palette y calls src pos]
  obtain v pos1 where
    step: "colour_pass same palette y (rev [0..<Suc n]) pixels calls src pos
       = colour_pass same palette y (rev [0..<n]) (pixels[n := v]) (calls @ [(n, y, v)]) src pos1"
    and vf: "same ! n = int n \<longrightarrow> v = fst (getRandomPaletteColor palette src pos)"
    and vc: "same ! n \<noteq> int n \<longrightarrow> v = pixels ! nat (same ! n)"
    by blast
  define pixels1 where "pixels1 = pixels[n := v]"
  have l1: "length pixels1 = w" using Suc.prems(2) by (simp add: pixels1_def)
  have above: "pixels1 ! i = pixels ! i" if "Suc n \<le> i" for i
    using that by (simp add: pixels1_def)
  have p1n: "pixels1 ! n = v" using n Suc.prems(2) by (simp add: pixels1_def)
  have p1: "\<forall>i. n \<le> i \<and> i < w \<longrightarrow> pixels1 ! i = pixels1 ! nat (same ! i)"
  proof (intro allI impI)
    fix i assume i: "n \<le> i \<and> i < w"
    show "pixels1 ! i = pixels1 ! nat (same ! i)"
    proof (cases "i = n")
      case True
      show ?thesis
      proof (cases "same ! n = int n")
        case True
        then show ?thesis using \<open>i = n\<close> by simp
      next
        case False
        then have "Suc n \<le> nat (same ! n)" using kn by linarith
        then show ?thesis using \<open>i = n\<close> p1n vc False above by simp
      qed
    next
      case False
      then have si: "Suc n \<le> i" using i by simp
      moreover have "int i \<le> same ! i" using inv i by (simp add: link_inv_def)
      ultimately have "Suc n \<le> nat (same ! i)" by linarith
      then show ?thesis
        using si Suc.prems(3) i above by simp
    qed
  qed
  have nle: "n \<le> w" using n by simp
  from Suc.IH [OF nle l1 p1, of "calls @ [(n, y, v)]" pos1]
  obtain pix calls' pos' where
    r: "colour_pass same palette y (rev [0..<n]) pixels1 (calls @ [(n, y, v)]) src pos1
          = Inr (pix, calls', pos')"
    and lp: "length pix = w"
    and keep: "\<forall>i. n \<le> i \<and> i < w \<longrightarrow> pix ! i = pixels1 ! i"
    and link: "\<forall>i<w. pix ! i = pix ! nat (same ! i)"
    and fresh: "\<forall>i<n. same ! i = int i \<longrightarrow>
        (\<exists>p. pix ! i = fst (getRandomPaletteColor palette src p))"
    and cs: "calls' = (calls @ [(n, y, v)]) @ map (\<lambda>x. (x, y, pix ! x)) (rev [0..<n])"
    by blast
  have pn: "pix ! n = v" using keep n p1n by simp
  have k1: "\<forall>i. Suc n \<le> i \<and> i < w \<longrightarrow> pix ! i = pixels ! i"
    using keep above by simp
  have f1: "\<forall>i<Suc n. same ! i = int i \<longrightarrow>
      (\<exists>p. pix ! i = fst (getRandomPaletteColor palette src p))"
  proof (intro allI impI)
    fix i assume a: "i < Suc n" "same ! i = int i"
    show "\<exists>p. pix ! i = fst (getRandomPaletteColor palette src p)"
    proof (cases "i = n")
      case True
      then show ?thesis using pn vf a by blast
    next
      case False
      then show ?thesis using fresh a by simp
    qed
  qed
  have c1: "calls' = calls @ map (\<lambda>x. (x, y, pix ! x)) (rev [0..<Suc n])"
    using cs pn by simp
  show ?case
    unfolding step pixels1_def [symmetric] using r lp k1 link f1 c1 by blast
qed

lemma linked_colours:
  assumes inv: "link_inv w same"
    and link: "\<forall>i<w. pix ! i = pix ! nat (same ! i)"
    and root: "\<forall>i<w. same ! i = int i \<longrightarrow> P (pix ! i)"
  shows "i < w \<Longrightarrow> P (pix ! i)"
proof (induction "w - i" arbitrary: i rule: less_induct)
  case less
  show ?case
  proof (cases "same ! i = int i")
    case True
    then show ?thesis using root less.prems by simp
  next
    case False
    have b: "int i \<le> same ! i" "same ! i < int w"
      using inv less.prems by (simp_all add: link_inv_def)
    define k where "k = nat (same ! i)"
    have k: "i < k" "k < w" using b False unfolding k_def by linarith+
    then have "P (pix ! k)" using less.hyps [of k] by simp
    then show ?thesis using link less.prems by (simp add: k_def)
  qed
qed

lemma colour_row:
  assumes inv: "link_inv w same"
  shows "\<exists>pix calls' pos'.
    colour_pass same palette y (rev [0..<w]) (replicate w zeroColor) [] src 0
      = Inr (pix, calls', pos') \<and>
    length pix = w \<and>
    (\<forall>i<w. pix ! i = pix ! nat (same ! i)) \<and>
    (\<forall>i<w. same ! i = int i \<longrightarrow> (\<exists>p. pix ! i = fst (getRandomPaletteColor palette src p))) \<and>
    calls' = map (\<lambda>x. (x, y, pix ! x)) (rev [0..<w])"
proof -
  have a: "w \<le> w" "length (replicate w zeroColor) = w" by simp_all
  have b: "\<forall>i. w \<le> i \<and> i < w \<longrightarrow>
        replicate w zeroColor ! i = replicate w zeroColor ! nat (same ! i)" by simp
  from colour_pass_linked [OF inv a b, of palette y "[]" src 0]
  obtain pix calls1 pos1 where
    cp1: "colour_pass same palette y (rev [0..<w]) (replicate w zeroColor) [] src 0
              = Inr (pix, calls1, pos1)"
    and props: "length pix = w" "\<forall>i<w. pix ! i = pix ! nat (same ! i)"
      "\<forall>i<w. same ! i = int i \<longrightarrow> (\<exists>p. pix ! i = fst (getRandomPaletteColor palette src p))"
    and c: "calls1 = [] @ map (\<lambda>x. (x, y, pix ! x)) (rev [0..<w])"
    by blast
  have c': "calls1 = map (\<lambda>x. (x, y, pix ! x)) (rev [0..<w])" using c by simp
  show ?thesis using cp1 props c' by blast
qed

text \<open>
  C3, where no separation is negative: in a row of a depth field for which
  \<open>projSeparation\<close> returns no negative separation, once the left-to-right pass
  completes, the link table has one entry per column and \<open>x \<le> same[x] < width\<close> for
  every column \<open>x\<close>; the colouring pass then runs without a panic, whatever the colour
  source returns, and the colour that column \<open>x\<close> ends with is the final colour of column
  \<open>same[x]\<close>: what it copied was assigned for good before.
\<close>

theorem link_table_monotone:
  assumes lp: "link_pass fp zBuf w mu e y [0..<w] (map int [0..<w]) = Some (Inr same)"
    and sign: "separations_nonneg fp zBuf mu e"
  shows "length same = w \<and> (\<forall>x<w. int x \<le> same ! x \<and> same ! x < int w) \<and>
    (\<exists>pixels calls n.
       colour_pass same palette y (rev [0..<w]) (replicate w zeroColor) [] src 0
         = Inr (pixels, calls, n) \<and>
       (\<forall>x<w. pixels ! x = pixels ! nat (same ! x)))"
proof -
  have inv: "link_inv w same" using link_pass_links [OF lp sign] .
  from colour_row [OF inv, of palette y src]
  obtain pix calls1 pos1 where
    "colour_pass same palette y (rev [0..<w]) (replicate w zeroColor) [] src 0
              = Inr (pix, calls1, pos1)"
    "\<forall>i<w. pix ! i = pix ! nat (same ! i)"
    by blast
  then show ?thesis using inv unfolding link_inv_def by blast
qed

text \<open>
  C3 at a row of four columns of depth 0, with \<open>mu = 1 / 3\<close> and \<open>e = 4\<close>: every
  separation is 2, and columns 0 and 1 are linked to columns 2 and 3.
\<close>

theorem link_table_monotone_witness:
  "link_pass exact [[0], [0], [0], [0]] 4 (1 / 3) 4 0 [0..<4] (map int [0..<4])
     = Some (Inr [2, 3, 2, 3]) \<and>
   separations_nonneg exact [[0], [0], [0], [0]] (1 / 3) 4 \<and>
   length [2, 3, 2, 3 :: int] = 4 \<and>
   (\<exists>pixels calls n.
       colour_pass [2, 3, 2, 3] [red, blue] 0 (rev [0..<4]) (replicate 4 zeroColor) [] id 0
         = Inr (pixels, calls, n) \<and>
       pixels ! 0 = pixels ! 2 \<and> pixels ! 1 = pixels ! 3)"
proof -
  have l: "link_pass exact [[0], [0], [0], [0]] 4 (1 / 3) 4 0 [0..<4] (map int [0..<4])
      = Some (Inr [2, 3, 2, 3])"
    by code_simp
  have "projSeparation exact 0 (1 / 3) 4 = 2" by (simp add: projSeparation_exact)
  then have u: "separations_nonneg exact [[0], [0], [0], [0]] (1 / 3) 4"
    by (simp add: separations_nonneg_def)
  from link_table_monotone [OF l u, of "[red, blue]" id]
  obtain pixels calls n where
    c: "colour_pass [2, 3, 2, 3] [red, blue] 0 (rev [0..<4]) (replicate 4 zeroColor) [] id 0
         = Inr (pixels, calls, n)"
    and p: "\<forall>x<4. pixels ! x = pixels ! nat ([2, 3, 2, 3] ! x)"
    by blast
  have p0: "pixels ! 0 = pixels ! 2" using p [rule_format, of 0] by simp
  have p1: "pixels ! 1 = pixels ! 3" using p [rule_format, of 1] by simp
  have len: "length [2, 3, 2, 3 :: int] = 4" by simp
  show ?thesis using l u len c p0 p1 by blast
qed

text \<open>
  C3 does not hold of every configuration. With \<open>mu = 3 / 2\<close>, \<open>e = 4\<close> and the depths
  \<open>0, 0, 1, 0, 0\<close> (every operation on them is exact in \<^verbatim>\<open>float64\<close>) the column of
  depth 1 has the separation \<open>-4\<close>, its \<open>right\<close> lies on the left of its \<open>left\<close>, and the
  pass completes with \<open>same[4] = 0\<close>.
\<close>

theorem link_points_left_counterexample:
  "projSeparation exact 1 (3 / 2) 4 = - 4 \<and>
   link_pass exact [[0], [0], [1], [0], [0]] 5 (3 / 2) 4 0 [0..<5] (map int [0..<5])
     = Some (Inr [0, 1, 2, 3, 0]) \<and>
   \<not> (4 :: int) \<le> [0, 1, 2, 3, 0] ! 4"
proof -
  have "projSeparation exact 1 (3 / 2) 4 = - 4" by (simp add: projSeparation_exact)
  moreover have "link_pass exact [[0], [0], [1], [0], [0]] 5 (3 / 2) 4 0 [0..<5] (map int [0..<5])
     = Some (Inr [0, 1, 2, 3, 0])"
    by code_simp
  ultimately show ?thesis by simp
qed

section \<open>The image and the calls that write it\<close>

lemma RGBA_Set_dims:
  "length (RGBA_Set img call) = length img \<and> map length (RGBA_Set img call) = map length img"
  by (auto simp: RGBA_Set_def map_update list_update_same_conv split: prod.splits)

lemma foldl_Set_dims:
  "length (foldl RGBA_Set img calls) = length img \<and>
   map length (foldl RGBA_Set img calls) = map length img"
  by (induction calls arbitrary: img) (simp_all add: RGBA_Set_dims)

lemma RGBA_Set_nth:
  assumes "y < length img" "x < length (img ! y)"
  shows "RGBA_Set img call ! y ! x = (if coord call = (x, y) then snd (snd call) else img ! y ! x)"
proof -
  obtain x0 y0 c0 where call: "call = (x0, y0, c0)" by (cases call) auto
  show ?thesis
    using assms unfolding call RGBA_Set_def coord_def
    by (auto simp: nth_list_update)
qed

lemma foldl_Set_nth:
  assumes "\<forall>call \<in> set calls. P (snd (snd call))" "y < length img" "x < length (img ! y)"
  shows "((x, y) \<in> coord ` set calls \<longrightarrow> P (foldl RGBA_Set img calls ! y ! x)) \<and>
         ((x, y) \<notin> coord ` set calls \<longrightarrow> foldl RGBA_Set img calls ! y ! x = img ! y ! x)"
  using assms(1)
proof (induction calls rule: rev_induct)
  case Nil
  then show ?case by simp
next
  case (snoc call calls)
  let ?prev = "foldl RGBA_Set img calls"
  have d: "length ?prev = length img" "map length ?prev = map length img"
    using foldl_Set_dims [of img calls] by auto
  have y': "y < length ?prev" using assms(2) d by simp
  have "length (?prev ! y) = length (img ! y)"
    using d assms(2) by (metis nth_map)
  then have x': "x < length (?prev ! y)" using assms(3) by simp
  have nth: "foldl RGBA_Set img (calls @ [call]) ! y ! x =
      (if coord call = (x, y) then snd (snd call) else ?prev ! y ! x)"
    using RGBA_Set_nth [OF y' x', of call] by simp
  have IH: "((x, y) \<in> coord ` set calls \<longrightarrow> P (?prev ! y ! x)) \<and>
         ((x, y) \<notin> coord ` set calls \<longrightarrow> ?prev ! y ! x = img ! y ! x)"
    using snoc by simp
  have Pc: "P (snd (snd call))" using snoc.prems by simp
  show ?case
    unfolding nth using IH Pc by auto
qed

lemma NewRGBA_dims: "length (NewRGBA w h) = h \<and> (\<forall>row \<in> set (NewRGBA w h). length row = w)"
  by (simp add: NewRGBA_def)

lemma image_dims:
  "length (foldl RGBA_Set (NewRGBA w h) calls) = h \<and>
   (\<forall>row \<in> set (foldl RGBA_Set (NewRGBA w h) calls). length row = w)"
proof -
  let ?img = "foldl RGBA_Set (NewRGBA w h) calls"
  have d: "length ?img = h" "map length ?img = replicate h w"
    using foldl_Set_dims [of "NewRGBA w h" calls] by (simp_all add: NewRGBA_def)
  have "\<forall>row \<in> set ?img. length row = w"
  proof
    fix row assume "row \<in> set ?img"
    then have "length row \<in> set (map length ?img)" by simp
    then show "length row = w" unfolding d(2) by simp
  qed
  then show ?thesis using d(1) by simp
qed

section \<open>The goroutines\<close>

lemma wait_all_Cons:
  assumes "wait_all (r # rs) = Some (Inr calls)"
  obtains c n cs where "r = Some (Inr (c, n))" "wait_all rs = Some (Inr cs)" "calls = c @ cs"
  using assms by (auto split: option.splits sum.splits prod.splits)

lemma row_worker_coords:
  assumes "row_worker fp zBuf w mu e palette y src = Some (Inr (calls, n))"
  shows "map coord calls = map (\<lambda>x. (x, y)) (rev [0..<w])"
proof -
  from assms obtain same pix where
    "colour_pass same palette y (rev [0..<w]) (replicate w zeroColor) [] src 0
       = Inr (pix, calls, n)"
    by (auto simp: row_worker_def split: option.splits sum.splits)
  from colour_pass_calls [OF this] show ?thesis
    by (simp add: coord_def [abs_def])
qed

lemma workers_coords:
  assumes "wait_all (map (\<lambda>y. row_worker fp zBuf w mu e palette y (srcs y)) ys)
             = Some (Inr calls)"
  shows "map coord calls = concat (map (\<lambda>y. map (\<lambda>x. (x, y)) (rev [0..<w])) ys)"
  using assms
proof (induction ys arbitrary: calls)
  case Nil
  then show ?case by simp
next
  case (Cons y ys)
  from Cons.prems have
    "wait_all (row_worker fp zBuf w mu e palette y (srcs y)
                # map (\<lambda>y. row_worker fp zBuf w mu e palette y (srcs y)) ys)
       = Some (Inr calls)"
    by simp
  then obtain c n cs where
    r: "row_worker fp zBuf w mu e palette y (srcs y) = Some (Inr (c, n))"
    and rest: "wait_all (map (\<lambda>y. row_worker fp zBuf w mu e palette y (srcs y)) ys)
                 = Some (Inr cs)"
    and calls: "calls = c @ cs"
    by (rule wait_all_Cons)
  show ?case
    unfolding calls using row_worker_coords [OF r] Cons.IH [OF rest] by simp
qed

lemma coords_distinct:
  "distinct ys \<Longrightarrow> distinct (concat (map (\<lambda>y. map (\<lambda>x. (x, y)) (rev [0..<w])) ys))"
proof (induction ys)
  case Nil
  then show ?case by simp
next
  case (Cons y ys)
  have "distinct (map (\<lambda>x. (x, y)) (rev [0..<w]))"
    by (simp add: distinct_map inj_on_def)
  then show ?case using Cons by auto
qed

lemma coords_set:
  "set (concat (map (\<lambda>y. map (\<lambda>x. (x, y)) (rev [0..<w])) ys)) = {0..<w} \<times> set ys"
  by auto

lemma row_worker_colours:
  assumes run: "row_worker fp zBuf w mu e palette y src = Some (Inr (calls, n))"
    and sign: "separations_nonneg fp zBuf mu e"
  shows "\<forall>call \<in> set calls. \<exists>p. snd (snd call) = fst (getRandomPaletteColor palette src p)"
proof -
  from run obtain same pix0 where
    lp: "link_pass fp zBuf w mu e y [0..<w] (map int [0..<w]) = Some (Inr same)"
    and cp: "colour_pass same palette y (rev [0..<w]) (replicate w zeroColor) [] src 0
              = Inr (pix0, calls, n)"
    by (auto simp: row_worker_def split: option.splits sum.splits)
  have inv: "link_inv w same" using link_pass_links [OF lp sign] .
  from colour_row [OF inv, of palette y src]
  obtain pix calls1 pos1 where
    cp1: "colour_pass same palette y (rev [0..<w]) (replicate w zeroColor) [] src 0
              = Inr (pix, calls1, pos1)"
    and link: "\<forall>i<w. pix ! i = pix ! nat (same ! i)"
    and root: "\<forall>i<w. same ! i = int i \<longrightarrow>
        (\<exists>p. pix ! i = fst (getRandomPaletteColor palette src p))"
    and c1: "calls1 = map (\<lambda>x. (x, y, pix ! x)) (rev [0..<w])"
    by blast
  have "Inr (pix0, calls, n) = (Inr (pix, calls1, pos1) :: error + _)"
    using cp cp1 by (rule trans [OF sym])
  then have cs: "calls = map (\<lambda>x. (x, y, pix ! x)) (rev [0..<w])" using c1 by simp
  have "\<forall>i<w. \<exists>p. pix ! i = fst (getRandomPaletteColor palette src p)"
    using linked_colours [OF inv link root] by blast
  then show ?thesis unfolding cs by auto
qed

lemma workers_colours:
  assumes "wait_all (map (\<lambda>y. row_worker fp zBuf w mu e palette y (srcs y)) ys)
             = Some (Inr calls)"
    and sign: "separations_nonneg fp zBuf mu e"
  shows "\<forall>call \<in> set calls. \<exists>s p. snd (snd call) = fst (getRandomPaletteColor palette s p)"
  using assms(1)
proof (induction ys arbitrary: calls)
  case Nil
  then show ?case by simp
next
  case (Cons y ys)
  from Cons.prems have
    "wait_all (row_worker fp zBuf w mu e palette y (srcs y)
                # map (\<lambda>y. row_worker fp zBuf w mu e palette y (srcs y)) ys)
       = Some (Inr calls)"
    by simp
  then obtain c n cs where
    r: "row_worker fp zBuf w mu e palette y (srcs y) = Some (Inr (c, n))"
    and rest: "wait_all (map (\<lambda>y. row_worker fp zBuf w mu e palette y (srcs y)) ys)
                 = Some (Inr cs)"
    and calls: "calls = c @ cs"
    by (rule wait_all_Cons)
  have "\<forall>call \<in> set c. \<exists>s p. snd (snd call) = fst (getRandomPaletteColor palette s p)"
    using row_worker_colours [OF r sign] by blast
  then show ?case
    unfolding calls using Cons.IH [OF rest] by auto
qed

lemma draw_calls:
  assumes "drawAutoStereogram fp srcs zBuf w h mu e palette = Some (Inr img)"
  obtains calls where
    "wait_all (run_workers fp srcs zBuf w h mu e palette) = Some (Inr calls)"
    "img = foldl RGBA_Set (NewRGBA w h) calls"
  using assms by (auto simp: drawAutoStereogram_def split: option.splits sum.splits)

text \<open>
  What holds of every image that \<open>drawAutoStereogram\<close> returns, whatever the
  configuration, the arithmetic and the interleaving of the goroutines: it has \<open>h\<close> rows
  of \<open>w\<close> pixels, and \<^verbatim>\<open>Set\<close> has been called exactly once for each point of
  \<open>[0, w) \<times> [0, h)\<close>.
\<close>

lemma draw_coverage:
  assumes draw: "drawAutoStereogram fp srcs zBuf w h mu e palette = Some (Inr img)"
  shows "length img = h \<and> (\<forall>row \<in> set img. length row = w) \<and>
    (\<exists>calls.
       wait_all (run_workers fp srcs zBuf w h mu e palette) = Some (Inr calls) \<and>
       img = foldl RGBA_Set (NewRGBA w h) calls \<and>
       distinct (map coord calls) \<and>
       set (map coord calls) = {0..<w} \<times> {0..<h})"
proof -
  from draw_calls [OF draw] obtain calls where
    run: "wait_all (run_workers fp srcs zBuf w h mu e palette) = Some (Inr calls)"
    and img: "img = foldl RGBA_Set (NewRGBA w h) calls"
    by blast
  have co: "map coord calls = concat (map (\<lambda>y. map (\<lambda>x. (x, y)) (rev [0..<w])) [0..<h])"
    using run unfolding run_workers_def by (rule workers_coords)
  have "distinct (map coord calls)" "set (map coord calls) = {0..<w} \<times> {0..<h}"
    unfolding co using coords_distinct [of "[0..<h]" w] coords_set [of w "[0..<h]"] by simp_all
  moreover have "length img = h \<and> (\<forall>row \<in> set img. length row = w)"
    unfolding img by (rule image_dims)
  ultimately show ?thesis using run img by blast
qed

text \<open>
  Where no separation is negative, every pixel of a returned image holds a colour that
  \<open>getRandomPaletteColor\<close> has returned: an entry of the palette, or for the empty
  palette a colour of alpha 255.
\<close>

lemma draw_colours:
  assumes draw: "drawAutoStereogram fp srcs zBuf w h mu e palette = Some (Inr img)"
    and sign: "separations_nonneg fp zBuf mu e"
    and y: "y < h" and x: "x < w"
  shows "(palette \<noteq> [] \<longrightarrow> img ! y ! x \<in> set palette) \<and>
         (palette = [] \<longrightarrow> A (img ! y ! x) = 255)"
proof -
  from draw_coverage [OF draw] obtain calls where
    run: "wait_all (run_workers fp srcs zBuf w h mu e palette) = Some (Inr calls)"
    and img: "img = foldl RGBA_Set (NewRGBA w h) calls"
    and cover: "set (map coord calls) = {0..<w} \<times> {0..<h}"
    by blast
  define P where "P c \<longleftrightarrow> (palette \<noteq> [] \<longrightarrow> c \<in> set palette) \<and> (palette = [] \<longrightarrow> A c = 255)"
    for c
  have "\<forall>call \<in> set calls. \<exists>s p. snd (snd call) = fst (getRandomPaletteColor palette s p)"
    using run sign unfolding run_workers_def by (rule workers_colours)
  then have cols: "\<forall>call \<in> set calls. P (snd (snd call))"
    unfolding P_def using fresh_in_palette [of palette] fresh_opaque [of palette] by metis
  have "(x, y) \<in> coord ` set calls" using cover x y by auto
  moreover have "y < length (NewRGBA w h)" "x < length (NewRGBA w h ! y)"
    using x y by (simp_all add: NewRGBA_def)
  ultimately have "P (img ! y ! x)"
    unfolding img using foldl_Set_nth [of calls P y "NewRGBA w h" x] cols by blast
  then show ?thesis unfolding P_def .
qed

section \<open>A link that points left\<close>

text \<open>
  C1: the documentation of the field \<^verbatim>\<open>Palette\<close> says that with one colour "the final
  image will always be monotonously filled with this color". Take a mask of five pixels in a
  row of which only the middle one is opaque, the palette of the single colour red,
  \<^verbatim>\<open>WithOutputDPI(4)\<close> and \<^verbatim>\<open>WithEyeSepartionRatio(1)\<close> (eye separation 4), and a caller's
  option that sets \<^verbatim>\<open>Mu\<close> to \<open>3 / 2\<close>. Every operation on these values is exact in
  \<^verbatim>\<open>float64\<close>, and the only goroutine draws four times. The column of depth 1 has the
  separation \<open>-4\<close>, column 4 is linked to column 0 on its left, and it copies what
  \<^verbatim>\<open>pixels[0]\<close> holds before it is assigned: the image returned is not red at pixel 4.
\<close>

theorem one_colour_palette_not_solid:
  "NewStereogramFromMask exact (deal [0, 0, 0, 0] id) (Inr mask_5x1)
     [WithColorPalette [red], WithOutputDPI 4, WithEyeSepartionRatio 1, callerOption_Mu (3 / 2)]
     = Some (Inr [[red, red, red, red, zeroColor]]) \<and>
   drawAutoStereogram exact (deal [0, 0, 0, 0] id) [[0], [0], [1], [0], [0]] 5 1 (3 / 2) 4 [red]
     = Some (Inr [[red, red, red, red, zeroColor]]) \<and>
   zeroColor \<notin> set [red] \<and>
   [[red, red, red, red, zeroColor]] \<noteq> replicate 1 (replicate 5 red)"
proof -
  have "NewStereogramFromMask exact (deal [0, 0, 0, 0] id) (Inr mask_5x1)
     [WithColorPalette [red], WithOutputDPI 4, WithEyeSepartionRatio 1, callerOption_Mu (3 / 2)]
     = Some (Inr [[red, red, red, red, zeroColor]])"
    by code_simp
  moreover have "drawAutoStereogram exact (deal [0, 0, 0, 0] id) [[0], [0], [1], [0], [0]] 5 1
      (3 / 2) 4 [red] = Some (Inr [[red, red, red, red, zeroColor]])"
    by code_simp
  moreover have "zeroColor \<notin> set [red]" by (simp add: zeroColor_def red_def)
  moreover have "[[red, red, red, red, zeroColor]] \<noteq> replicate 1 (replicate 5 red)"
    by code_simp
  ultimately show ?thesis by blast
qed

text \<open>
  C8: at the same depths and configuration the goroutine of row 0 calls \<^verbatim>\<open>Set\<close> once
  for each of its five pixels, and the colour it passes for pixel 4 is the zero value
  that \<^verbatim>\<open>pixels[0]\<close> holds before its assignment: after the call the pixel holds what
  \<^verbatim>\<open>image.NewRGBA\<close> had put there.
\<close>

theorem linked_pixel_left_unassigned:
  "row_worker exact [[0], [0], [1], [0], [0]] 5 (3 / 2) 4 [red] 0 (deal [0, 0, 0, 0] id 0)
     = Some (Inr ([(4, 0, zeroColor), (3, 0, red), (2, 0, red), (1, 0, red), (0, 0, red)], 4)) \<and>
   foldl RGBA_Set (NewRGBA 5 1)
       [(4, 0, zeroColor), (3, 0, red), (2, 0, red), (1, 0, red), (0, 0, red)] ! 0 ! 4
     = NewRGBA 5 1 ! 0 ! 4 \<and>
   NewRGBA 5 1 ! 0 ! 4 = zeroColor"
proof -
  have "row_worker exact [[0], [0], [1], [0], [0]] 5 (3 / 2) 4 [red] 0 (deal [0, 0, 0, 0] id 0)
     = Some (Inr ([(4, 0, zeroColor), (3, 0, red), (2, 0, red), (1, 0, red), (0, 0, red)], 4))"
    by code_simp
  moreover have "foldl RGBA_Set (NewRGBA 5 1)
       [(4, 0, zeroColor), (3, 0, red), (2, 0, red), (1, 0, red), (0, 0, red)] ! 0 ! 4
     = NewRGBA 5 1 ! 0 ! 4"
    by code_simp
  moreover have "NewRGBA 5 1 ! 0 ! 4 = zeroColor" by code_simp
  ultimately show ?thesis by blast
qed

section \<open>Degenerate masks and small eye separations\<close>

lemma row_worker_no_columns: "row_worker fp zBuf 0 mu e palette y src = Some (Inr ([], 0))"
  by (simp add: row_worker_def)

lemma wait_all_no_calls: "wait_all (map (\<lambda>y. Some (Inr ([], 0))) ys) = Some (Inr [])"
  by (induction ys) simp_all

text \<open>
  C5, what the code does: for a decoded mask of width or height zero, \<open>NewStereogramFromMask\<close>
  validates nothing: whatever the options, it returns no error and the empty image of
  the mask's dimensions.
\<close>

theorem empty_mask_returns_image:
  assumes "Dx maskImg = 0 \<or> Dy maskImg = 0"
  shows "NewStereogramFromMask fp srcs (Inr maskImg) opts
           = Some (Inr (NewRGBA (Dx maskImg) (Dy maskImg)))"
proof (cases "Dx maskImg = 0")
  case True
  then show ?thesis
    by (simp add: NewStereogramFromMask_def Let_def drawAutoStereogram_def run_workers_def
        row_worker_no_columns wait_all_no_calls)
next
  case False
  then have "Dy maskImg = 0" using assms by simp
  then show ?thesis
    by (simp add: NewStereogramFromMask_def Let_def drawAutoStereogram_def run_workers_def)
qed

text \<open>
  C5 at a mask of width 0 and height 2 and an option.
\<close>

theorem empty_mask_returns_image_witness:
  "Dx mask_0x2 = 0 \<and>
   NewStereogramFromMask exact (deal [] id) (Inr mask_0x2) [WithOutputDPI 144]
     = Some (Inr [[], []])"
proof -
  have d: "Dx mask_0x2 = 0 \<or> Dy mask_0x2 = 0" by (simp add: mask_0x2_def)
  have n: "NewRGBA (Dx mask_0x2) (Dy mask_0x2) = [[], []]"
    by (simp add: mask_0x2_def NewRGBA_def numeral_2_eq_2)
  from empty_mask_returns_image [OF d, of exact "deal [] id" "[WithOutputDPI 144]"] n
  show ?thesis by (simp add: mask_0x2_def)
qed

text \<open>
  C5, the rejection, does not hold: a decoded mask of width 0 and height 2 is not rejected. Two
  goroutines run over no column, and the call returns an image of two empty rows.
\<close>

theorem empty_mask_not_rejected:
  "NewStereogramFromMask exact (deal [] id) (Inr mask_0x2) [] = Some (Inr [[], []])"
  by code_simp

text \<open>
  C7: column \<open>x = 0\<close> of row 0, with depth 0, \<open>mu = 1 / 3\<close>, \<open>e = 1\<close> and width 2, has
  separation 1, so \<open>left = 0\<close> and \<open>right = 1\<close> pass the edge check; the scan then evaluates
  \<open>t = 1 > min(x, width - 1 - x) = 0\<close> and reads \<^verbatim>\<open>zBuf[-1]\<close>: the round of the pass for
  this column ends in the panic.
\<close>

theorem visibility_scan_out_of_range:
  "projSeparation exact 0 (1 / 3) 1 = 1 \<and>
   0 - quo (1 + (1 AND 0 AND 1)) 2 = 0 \<and>
   visible_loop exact [[0], [0]] (1 / 3) 1 0 0 0 1 = Inl (IndexOutOfRange (- 1)) \<and>
   link_step exact [[0], [0]] 2 (1 / 3) 1 0 [0, 1] 0 = Some (Inl (IndexOutOfRange (- 1))) \<and>
   \<not> (1::int) \<le> min 0 (2 - 1 - 0)"
proof -
  have "projSeparation exact 0 (1 / 3) 1 = 1" by code_simp
  moreover have "0 - quo (1 + (1 AND 0 AND 1)) 2 = 0" by (simp add: quo_def)
  moreover have "visible_loop exact [[0], [0]] (1 / 3) 1 0 0 0 1 = Inl (IndexOutOfRange (- 1))"
    by code_simp
  moreover have "link_step exact [[0], [0]] 2 (1 / 3) 1 0 [0, 1] 0
      = Some (Inl (IndexOutOfRange (- 1)))"
    by code_simp
  ultimately show ?thesis by simp
qed

text \<open>
  C6: a depth field of two columns and one row with depths in \<open>[0, 1]\<close>, \<open>mu = 1 / 3\<close>
  and the eye separation \<open>e = 1\<close>. The synthesis does not return an image: the occlusion
  scan of column 0 reads \<^verbatim>\<open>zBuf[-1]\<close> and the program panics. The options
  \<^verbatim>\<open>WithOutputDPI(1)\<close> and \<^verbatim>\<open>WithEyeSepartionRatio(1)\<close> reach this through
  \<open>NewStereogramFromMask\<close>, on a mask of two pixels of which the left one is transparent.
\<close>

theorem synthesis_panics:
  "drawAutoStereogram exact (deal [] id) [[0], [1]] 2 1 (1 / 3) 1 []
     = Some (Inl (IndexOutOfRange (- 1))) \<and>
   NewStereogramFromMask exact (deal [] id) (Inr mask_2x1)
       [WithOutputDPI 1, WithEyeSepartionRatio 1]
     = Some (Inl (IndexOutOfRange (- 1)))"
proof -
  have "drawAutoStereogram exact (deal [] id) [[0], [1]] 2 1 (1 / 3) 1 []
      = Some (Inl (IndexOutOfRange (- 1)))"
    by code_simp
  moreover have "NewStereogramFromMask exact (deal [] id) (Inr mask_2x1)
      [WithOutputDPI 1, WithEyeSepartionRatio 1] = Some (Inl (IndexOutOfRange (- 1)))"
    by code_simp
  ultimately show ?thesis by blast
qed

section \<open>Dependence on the colour source\<close>

lemma agree_mono: "agree m s1 s2 \<Longrightarrow> n \<le> m \<Longrightarrow> agree n s1 s2"
  by (simp add: agree_def)

lemma fresh_agree:
  assumes "agree (pos + 3) s1 s2"
  shows "getRandomPaletteColor palette s1 pos = getRandomPaletteColor palette s2 pos"
proof -
  have "s1 pos = s2 pos" "s1 (Suc pos) = s2 (Suc pos)" "s1 (Suc (Suc pos)) = s2 (Suc (Suc pos))"
    using assms by (simp_all add: agree_def)
  then show ?thesis by (simp add: getRandomPaletteColor_def Intn_def)
qed

lemma fresh_pos: "snd (getRandomPaletteColor palette src pos) \<le> pos + 3"
  by (simp add: getRandomPaletteColor_def Intn_def)

lemma colour_pass_agree:
  assumes "agree (pos + 3 * length xs) s1 s2"
  shows "colour_pass same palette y xs pixels calls s1 pos
       = colour_pass same palette y xs pixels calls s2 pos"
  using assms
proof (induction xs arbitrary: pixels calls pos)
  case Nil
  then show ?case by simp
next
  case (Cons x xs)
  show ?case
  proof (cases "length same \<le> x \<or> length pixels \<le> x \<or> same ! x < 0 \<or>
                int (length pixels) \<le> same ! x")
    case True
    then show ?thesis by auto
  next
    case ok: False
    define pixels1 where "pixels1 = pixels[x := pixels ! nat (same ! x)]"
    show ?thesis
    proof (cases "same ! x = int x")
      case True
      obtain c pos1 where g1: "getRandomPaletteColor palette s1 pos = (c, pos1)" by force
      have "agree (pos + 3) s1 s2" using Cons.prems by (rule agree_mono) simp
      then have g2: "getRandomPaletteColor palette s2 pos = (c, pos1)"
        using fresh_agree [of pos s1 s2 palette] g1 by simp
      have "pos1 \<le> pos + 3" using fresh_pos [of palette s1 pos] g1 by simp
      then have le: "pos1 + 3 * length xs \<le> pos + 3 * length (x # xs)" by simp
      have a: "agree (pos1 + 3 * length xs) s1 s2"
        using Cons.prems le by (rule agree_mono)
      have e1: "colour_pass same palette y (x # xs) pixels calls s1 pos
          = colour_pass same palette y xs (pixels1[x := c]) (calls @ [(x, y, c)]) s1 pos1"
        using ok True g1 by (simp add: Let_def pixels1_def)
      have e2: "colour_pass same palette y (x # xs) pixels calls s2 pos
          = colour_pass same palette y xs (pixels1[x := c]) (calls @ [(x, y, c)]) s2 pos1"
        using ok True g2 by (simp add: Let_def pixels1_def)
      show ?thesis unfolding e1 e2 by (rule Cons.IH [OF a])
    next
      case False
      have a: "agree (pos + 3 * length xs) s1 s2" using Cons.prems by (rule agree_mono) simp
      have e1: "colour_pass same palette y (x # xs) pixels calls s1 pos
          = colour_pass same palette y xs pixels1 (calls @ [(x, y, pixels1 ! x)]) s1 pos"
        using ok False by (simp add: Let_def pixels1_def)
      have e2: "colour_pass same palette y (x # xs) pixels calls s2 pos
          = colour_pass same palette y xs pixels1 (calls @ [(x, y, pixels1 ! x)]) s2 pos"
        using ok False by (simp add: Let_def pixels1_def)
      show ?thesis unfolding e1 e2 by (rule Cons.IH [OF a])
    qed
  qed
qed

lemma row_worker_agree:
  assumes "agree (3 * w) s1 s2"
  shows "row_worker fp zBuf w mu e palette y s1 = row_worker fp zBuf w mu e palette y s2"
proof -
  have "agree (0 + 3 * length (rev [0..<w])) s1 s2" using assms by simp
  then have eq: "colour_pass same palette y (rev [0..<w]) (replicate w zeroColor) [] s1 0
      = colour_pass same palette y (rev [0..<w]) (replicate w zeroColor) [] s2 0" for same
    by (rule colour_pass_agree)
  show ?thesis unfolding row_worker_def eq ..
qed

lemma run_workers_agree:
  assumes "\<forall>y<h. agree (3 * w) (srcs1 y) (srcs2 y)"
  shows "run_workers fp srcs1 zBuf w h mu e palette = run_workers fp srcs2 zBuf w h mu e palette"
  unfolding run_workers_def
proof (rule map_cong [OF refl])
  fix y assume "y \<in> set [0..<h]"
  then have "agree (3 * w) (srcs1 y) (srcs2 y)" using assms by simp
  then show "row_worker fp zBuf w mu e palette y (srcs1 y)
           = row_worker fp zBuf w mu e palette y (srcs2 y)"
    by (rule row_worker_agree)
qed

lemma slots_less: "j < length (slots sched y) \<Longrightarrow> slots sched y ! j < length sched"
proof -
  assume "j < length (slots sched y)"
  then have "slots sched y ! j \<in> set (slots sched y)" by simp
  then show ?thesis by (simp add: slots_def)
qed

lemma deal_agree:
  assumes "agree (length sched) s1 s2"
  shows "deal sched s1 = deal sched s2"
proof (intro ext)
  fix y j
  show "deal sched s1 y j = deal sched s2 y j"
    using assms slots_less [of j sched y] by (simp add: deal_def agree_def)
qed

text \<open>
  C2, for a fixed order of the draws: fix the depth field and the configuration. The
  result of \<open>drawAutoStereogram\<close> depends on the colour source only through the results
  that the goroutine of each row receives in its first \<open>3 * w\<close> calls: two runs in which
  every goroutine receives the same such results end alike, both with the same image or
  neither with an image. In particular two runs whose calls of \<^verbatim>\<open>rand.Intn\<close> are
  made by the goroutines in the same order \<open>sched\<close>, from sources that return the same
  results for these calls, end alike.
\<close>

theorem draws_determine_image:
  "((\<forall>y<h. agree (3 * w) (srcs1 y) (srcs2 y)) \<longrightarrow>
      (drawAutoStereogram fp srcs1 zBuf w h mu e palette = Some (Inr img) \<longleftrightarrow>
       drawAutoStereogram fp srcs2 zBuf w h mu e palette = Some (Inr img))) \<and>
   (agree (length sched) s1 s2 \<longrightarrow>
      (drawAutoStereogram fp (deal sched s1) zBuf w h mu e palette = Some (Inr img) \<longleftrightarrow>
       drawAutoStereogram fp (deal sched s2) zBuf w h mu e palette = Some (Inr img)))"
proof (intro conjI impI)
  assume "\<forall>y<h. agree (3 * w) (srcs1 y) (srcs2 y)"
  then have "run_workers fp srcs1 zBuf w h mu e palette
           = run_workers fp srcs2 zBuf w h mu e palette"
    by (rule run_workers_agree)
  then show "drawAutoStereogram fp srcs1 zBuf w h mu e palette = Some (Inr img) \<longleftrightarrow>
       drawAutoStereogram fp srcs2 zBuf w h mu e palette = Some (Inr img)"
    unfolding drawAutoStereogram_def by simp
next
  assume "agree (length sched) s1 s2"
  then have "deal sched s1 = deal sched s2" by (rule deal_agree)
  then show "drawAutoStereogram fp (deal sched s1) zBuf w h mu e palette = Some (Inr img) \<longleftrightarrow>
       drawAutoStereogram fp (deal sched s2) zBuf w h mu e palette = Some (Inr img)"
    by simp
qed

text \<open>
  C2 at an image of two rows of two pixels whose goroutines draw in the order
  1, 0, 1, 0, and at two sources that agree on their first four results only.
\<close>

theorem draws_determine_image_witness:
  "agree (length [1, 0, 1, 0 :: nat]) id capped_source \<and>
   is_schedule [1, 0, 1, 0]
     (draws exact (deal [1, 0, 1, 0] id) [[0, 0], [0, 0]] 2 2 (1 / 3) 4 [red, blue]) \<and>
   drawAutoStereogram exact (deal [1, 0, 1, 0] capped_source) [[0, 0], [0, 0]] 2 2 (1 / 3) 4
       [red, blue]
     = Some (Inr [[blue, blue], [red, red]])"
proof -
  have a: "agree (length [1, 0, 1, 0 :: nat]) id capped_source"
    by (simp add: agree_def capped_source_def)
  have s: "is_schedule [1, 0, 1, 0]
     (draws exact (deal [1, 0, 1, 0] id) [[0, 0], [0, 0]] 2 2 (1 / 3) 4 [red, blue])"
    by code_simp
  have d: "drawAutoStereogram exact (deal [1, 0, 1, 0] id) [[0, 0], [0, 0]] 2 2 (1 / 3) 4
      [red, blue] = Some (Inr [[blue, blue], [red, red]])"
    by code_simp
  have eq: "deal [1, 0, 1, 0] id = deal [1, 0, 1, 0] capped_source"
    using a by (rule deal_agree)
  have b: "\<forall>y<2. agree (3 * 2) (deal [1, 0, 1, 0] id y) (deal [1, 0, 1, 0] capped_source y)"
    unfolding eq by (simp add: agree_def)
  note inst = draws_determine_image [of 2 2 "deal [1, 0, 1, 0] id" "deal [1, 0, 1, 0] capped_source"
      exact "[[0, 0], [0, 0]]" "1 / 3" 4 "[red, blue]" "[[blue, blue], [red, red]]"
      "[1, 0, 1, 0]" id capped_source]
  from inst b d have "drawAutoStereogram exact (deal [1, 0, 1, 0] capped_source) [[0, 0], [0, 0]]
      2 2 (1 / 3) 4 [red, blue] = Some (Inr [[blue, blue], [red, red]])"
    by blast
  then show ?thesis using a s by blast
qed

text \<open>
  C2 does not hold as stated: the depth field, the configuration and the colour source
  are the same in both runs, and the images differ, because the goroutines draw from
  the shared source in the order in which they happen to run. In the first run the
  goroutine of row 0 makes its two draws before that of row 1; in the second the draws
  alternate, row 1 first.
\<close>

theorem draw_order_changes_image:
  "drawAutoStereogram exact (deal [0, 0, 1, 1] id) [[0, 0], [0, 0]] 2 2 (1 / 3) 4 [red, blue]
     = Some (Inr [[blue, red], [blue, red]]) \<and>
   drawAutoStereogram exact (deal [1, 0, 1, 0] id) [[0, 0], [0, 0]] 2 2 (1 / 3) 4 [red, blue]
     = Some (Inr [[blue, blue], [red, red]]) \<and>
   is_schedule [0, 0, 1, 1]
     (draws exact (deal [0, 0, 1, 1] id) [[0, 0], [0, 0]] 2 2 (1 / 3) 4 [red, blue]) \<and>
   is_schedule [1, 0, 1, 0]
     (draws exact (deal [1, 0, 1, 0] id) [[0, 0], [0, 0]] 2 2 (1 / 3) 4 [red, blue]) \<and>
   [[blue, red], [blue, red]] \<noteq> [[blue, blue], [red, red]]"
proof -
  have "drawAutoStereogram exact (deal [0, 0, 1, 1] id) [[0, 0], [0, 0]] 2 2 (1 / 3) 4
      [red, blue] = Some (Inr [[blue, red], [blue, red]])"
    by code_simp
  moreover have "drawAutoStereogram exact (deal [1, 0, 1, 0] id) [[0, 0], [0, 0]] 2 2 (1 / 3) 4
      [red, blue] = Some (Inr [[blue, blue], [red, red]])"
    by code_simp
  moreover have "is_schedule [0, 0, 1, 1]
     (draws exact (deal [0, 0, 1, 1] id) [[0, 0], [0, 0]] 2 2 (1 / 3) 4 [red, blue])"
    by code_simp
  moreover have "is_schedule [1, 0, 1, 0]
     (draws exact (deal [1, 0, 1, 0] id) [[0, 0], [0, 0]] 2 2 (1 / 3) 4 [red, blue])"
    by code_simp
  moreover have "[[blue, red], [blue, red]] \<noteq> [[blue, blue], [red, red]]"
    by (simp add: red_def blue_def)
  ultimately show ?thesis by blast
qed

end
